theory Spec2Isabelle
  imports Complex_Main
begin

section \<open>Python values and strings\<close>

text \<open>
  A Python \<open>str\<close> is modelled as a \<open>string\<close> whose characters are the code points
  below 256 (Latin-1). On this range \<open>str.strip\<close>, \<open>str.lower\<close> and the regular
  expression classes used by the source are given exactly; strings with code points
  from 256 on are outside the model.

  Cell values are dynamically typed (\<open>Dict[str, Any]\<close>). \<open>PNone\<close> is \<open>None\<close>,
  \<open>PStr\<close> a \<open>str\<close>, \<open>PInt\<close> an \<open>int\<close>, \<open>PBool\<close> a \<open>bool\<close>. \<open>POther s t\<close> stands
  for a value of any other type (a float, a datetime): the source only ever looks at
  its \<open>str()\<close>, which is \<open>s\<close>, and at its truth value, which is \<open>t\<close>; it is never
  equal to \<open>None\<close> or to a \<open>str\<close>.
\<close>

datatype pyval =
    PNone
  | PStr string
  | PInt int
  | PBool bool
  | POther string bool

text \<open>\<open>str.isspace\<close> on one character: the whitespace code points below 256.\<close>

definition py_isspace :: "char \<Rightarrow> bool" where
  "py_isspace c = (c \<in> set [CHR 0x09, CHR 0x0A, CHR 0x0B, CHR 0x0C, CHR 0x0D,
     CHR 0x1C, CHR 0x1D, CHR 0x1E, CHR 0x1F, CHR 0x20, CHR 0x85, CHR 0xA0])"

text \<open>\<open>s.strip()\<close>: leading and trailing whitespace removed.\<close>

definition py_strip :: "string \<Rightarrow> string" where
  "py_strip s = rev (dropWhile py_isspace (rev (dropWhile py_isspace s)))"

definition upper_chars :: "char list" where
  "upper_chars = ''ABCDEFGHIJKLMNOPQRSTUVWXYZ'' @
     [CHR 0xC0, CHR 0xC1, CHR 0xC2, CHR 0xC3, CHR 0xC4, CHR 0xC5, CHR 0xC6, CHR 0xC7,
      CHR 0xC8, CHR 0xC9, CHR 0xCA, CHR 0xCB, CHR 0xCC, CHR 0xCD, CHR 0xCE, CHR 0xCF,
      CHR 0xD0, CHR 0xD1, CHR 0xD2, CHR 0xD3, CHR 0xD4, CHR 0xD5, CHR 0xD6,
      CHR 0xD8, CHR 0xD9, CHR 0xDA, CHR 0xDB, CHR 0xDC, CHR 0xDD, CHR 0xDE]"

definition lower_chars :: "char list" where
  "lower_chars = ''abcdefghijklmnopqrstuvwxyz'' @
     [CHR 0xE0, CHR 0xE1, CHR 0xE2, CHR 0xE3, CHR 0xE4, CHR 0xE5, CHR 0xE6, CHR 0xE7,
      CHR 0xE8, CHR 0xE9, CHR 0xEA, CHR 0xEB, CHR 0xEC, CHR 0xED, CHR 0xEE, CHR 0xEF,
      CHR 0xF0, CHR 0xF1, CHR 0xF2, CHR 0xF3, CHR 0xF4, CHR 0xF5, CHR 0xF6,
      CHR 0xF8, CHR 0xF9, CHR 0xFA, CHR 0xFB, CHR 0xFC, CHR 0xFD, CHR 0xFE]"

definition py_lower_char :: "char \<Rightarrow> char" where
  "py_lower_char c = (case map_of (zip upper_chars lower_chars) c of Some d \<Rightarrow> d | None \<Rightarrow> c)"

text \<open>\<open>s.lower()\<close>.\<close>

definition py_lower :: "string \<Rightarrow> string" where
  "py_lower s = map py_lower_char s"

text \<open>The complement of the character class \<open>[^a-z0-9]\<close>.\<close>

definition is_alnum :: "char \<Rightarrow> bool" where
  "is_alnum c = (c \<in> set ''abcdefghijklmnopqrstuvwxyz0123456789'')"

text \<open>
  \<open>re.sub(r"[X]+", " ", s)\<close> for a character class \<open>X\<close> given as the predicate \<open>P\<close>:
  every maximal run of characters of the class becomes one space.
\<close>

function sub_runs :: "(char \<Rightarrow> bool) \<Rightarrow> string \<Rightarrow> string" where
  "sub_runs P [] = []"
| "sub_runs P (c # cs) =
     (if P c then CHR '' '' # sub_runs P (dropWhile P cs) else c # sub_runs P cs)"
  by pat_completeness auto
termination
  by (relation "measure (\<lambda>(P, s). length s)") (auto simp: length_dropWhile_le less_Suc_eq_le)

text \<open>\<open>str(n)\<close> for an \<open>int\<close>: its decimal digits, with a minus sign when negative.\<close>

definition digit_char :: "nat \<Rightarrow> char" where
  "digit_char d = ''0123456789'' ! d"

function nat_digits :: "nat \<Rightarrow> string" where
  "nat_digits n = (if n < 10 then [digit_char n] else nat_digits (n div 10) @ [digit_char (n mod 10)])"
  by pat_completeness auto
termination
  by (relation "measure id") auto

definition int_str :: "int \<Rightarrow> string" where
  "int_str i = (if i < 0 then CHR ''-'' # nat_digits (nat (- i)) else nat_digits (nat i))"

text \<open>\<open>str(v)\<close>.\<close>

fun py_str :: "pyval \<Rightarrow> string" where
  "py_str PNone = ''None''"
| "py_str (PStr s) = s"
| "py_str (PInt i) = int_str i"
| "py_str (PBool b) = (if b then ''True'' else ''False'')"
| "py_str (POther s t) = s"

text \<open>\<open>bool(v)\<close>, the truth value used by \<open>or\<close> and \<open>if\<close>.\<close>

fun truthy :: "pyval \<Rightarrow> bool" where
  "truthy PNone = False"
| "truthy (PStr s) = (s \<noteq> [])"
| "truthy (PInt i) = (i \<noteq> 0)"
| "truthy (PBool b) = b"
| "truthy (POther s t) = t"

text \<open>
  The test \<open>v is None or str(v).strip() == ""\<close>, which the source writes out in
  \<open>read_table\<close>, \<open>_compose_key\<close>, \<open>combine_records\<close> and \<open>_to_float\<close>.
\<close>

definition is_blank :: "pyval \<Rightarrow> bool" where
  "is_blank v = (v = PNone \<or> py_strip (py_str v) = [])"

section \<open>Dictionaries\<close>

text \<open>
  A Python \<open>dict\<close> keeps its keys in insertion order, and the source iterates over
  dictionaries, so a dictionary is an association list: assigning to a key that is
  present replaces the value in place, assigning to a new key appends it.
\<close>

type_synonym ('k, 'v) dict = "('k \<times> 'v) list"

definition dict_get :: "('k, 'v) dict \<Rightarrow> 'k \<Rightarrow> 'v option" where
  "dict_get d k = map_of d k"

fun dict_set :: "('k, 'v) dict \<Rightarrow> 'k \<Rightarrow> 'v \<Rightarrow> ('k, 'v) dict" where
  "dict_set [] k v = [(k, v)]"
| "dict_set ((k', v') # d) k v = (if k' = k then (k, v) # d else (k', v') # dict_set d k v)"

text \<open>\<open>d.setdefault(k, v)\<close>, as the dictionary it leaves behind.\<close>

definition setdefault :: "('k, 'v) dict \<Rightarrow> 'k \<Rightarrow> 'v \<Rightarrow> ('k, 'v) dict" where
  "setdefault d k v = (case dict_get d k of None \<Rightarrow> dict_set d k v | Some _ \<Rightarrow> d)"

type_synonym row = "(string, pyval) dict"

text \<open>\<open>rec.get(k)\<close>: \<open>None\<close> when the key is missing.\<close>

definition py_get :: "row \<Rightarrow> string \<Rightarrow> pyval" where
  "py_get r k = (case dict_get r k of None \<Rightarrow> PNone | Some v \<Rightarrow> v)"

section \<open>Column canonicalizer (\<open>merge.py\<close>)\<close>

definition NORMALIZED_COLUMN_ALIASES :: "(string, string list) dict" where
  "NORMALIZED_COLUMN_ALIASES =
   [(''organisation_id'',
       [''organisation id'', ''org id'', ''org_id'', ''organisationid'', ''organization id'',
        ''organization_id'', ''company id'', ''company_id'']),
    (''customer'', [''customer'', ''client'', ''account'', ''buyer'']),
    (''name'', [''name'', ''contact name'', ''full name'', ''contractor'', ''contractor name'']),
    (''product_status'', [''product status'', ''product_status'', ''status product'']),
    (''engagement_status'',
       [''engagement status'', ''engagement_status'', ''status engagement'', ''project status'']),
    (''carbon_factor'', [''carbon factor'', ''carbon_factor'', ''co2 factor'', ''emissions factor'']),
    (''next_activity_due_date'',
       [''next activity due date'', ''next due'', ''due date'', ''next_activity'',
        ''next action due''])]"

definition canonicalize :: "string \<Rightarrow> string" where
  "canonicalize name =
     (let s = py_lower (py_strip name);
          s = sub_runs (\<lambda>c. \<not> is_alnum c) s;
          s = py_strip (sub_runs py_isspace s)
      in s)"

text \<open>The loop of \<open>_map_column\<close> over the items of the alias table.\<close>

fun map_column_loop :: "string \<Rightarrow> (string, string list) dict \<Rightarrow> string" where
  "map_column_loop c_norm [] = c_norm"
| "map_column_loop c_norm ((canonical, aliases) # rest) =
     (if c_norm = canonical \<or> c_norm \<in> set aliases then canonical
      else map_column_loop c_norm rest)"

definition map_column :: "string \<Rightarrow> string" where
  "map_column name = map_column_loop (canonicalize name) NORMALIZED_COLUMN_ALIASES"

section \<open>Reading and normalizing tables (\<open>merge.py\<close>)\<close>

definition endswith :: "string \<Rightarrow> string \<Rightarrow> bool" where
  "endswith s suffix = (length suffix \<le> length s \<and> drop (length s - length suffix) s = suffix)"

text \<open>The inner loop of the spreadsheet branch: \<open>for h, v in zip(headers, row)\<close>.\<close>

fun read_row :: "row \<Rightarrow> (string \<times> pyval) list \<Rightarrow> row" where
  "read_row rec [] = rec"
| "read_row rec ((h, v) # hvs) = (if h = [] then read_row rec hvs else read_row (dict_set rec h v) hvs)"

fun read_rows :: "string list \<Rightarrow> row list \<Rightarrow> pyval list list \<Rightarrow> row list" where
  "read_rows headers records [] = records"
| "read_rows headers records (row # rows) =
     (let rec = read_row [] (zip headers row) in
      if \<exists>v \<in> set (map snd rec). v \<noteq> PNone \<and> py_strip (py_str v) \<noteq> []
      then read_rows headers (records @ [rec]) rows
      else read_rows headers records rows)"

text \<open>
  \<open>read_table\<close>. The two parsers are outside the repository, so what they deliver is
  a parameter: \<open>ws_rows\<close> is what \<open>ws.iter_rows(values_only=True)\<close> yields for the
  workbook at \<open>path\<close>, \<open>csv_rows\<close> what \<open>csv.DictReader\<close> yields for the text file.
\<close>

definition read_table :: "string \<Rightarrow> pyval list list \<Rightarrow> row list \<Rightarrow> row list" where
  "read_table path ws_rows csv_rows =
     (if endswith (py_lower path) ''.xlsx'' \<or> endswith (py_lower path) ''.xls'' then
        (case ws_rows of
           [] \<Rightarrow> []
         | headers # rows \<Rightarrow>
             read_rows (map (\<lambda>h. if h \<noteq> PNone then py_str h else []) headers) [] rows)
      else csv_rows)"

text \<open>The inner loop of \<open>normalize_records\<close>: \<open>for k, v in rec.items()\<close>.\<close>

fun normalize_items :: "(string, string) dict \<Rightarrow> row \<Rightarrow> (string \<times> pyval) list \<Rightarrow> (string, string) dict \<times> row" where
  "normalize_items col_map out [] = (col_map, out)"
| "normalize_items col_map out ((k, v) # items) =
     (case dict_get col_map k of
        None \<Rightarrow> normalize_items (dict_set col_map k (map_column k)) (dict_set out (map_column k) v) items
      | Some c \<Rightarrow> normalize_items col_map (dict_set out c v) items)"

fun normalize_loop :: "(string, string) dict \<Rightarrow> row list \<Rightarrow> row list \<Rightarrow> row list \<times> (string, string) dict" where
  "normalize_loop col_map normalized [] = (normalized, col_map)"
| "normalize_loop col_map normalized (rec # records) =
     (case normalize_items col_map [] rec of
        (col_map', out) \<Rightarrow> normalize_loop col_map' (normalized @ [out]) records)"

definition normalize_records :: "row list \<Rightarrow> row list \<times> (string, string) dict" where
  "normalize_records records = normalize_loop [] [] records"

section \<open>Key inference (\<open>merge.py\<close>)\<close>

text \<open>\<open>cols = set(); for rec in frame: cols.update(rec.keys())\<close>.\<close>

definition frame_cols :: "row list \<Rightarrow> string set" where
  "frame_cols frame = foldl (\<lambda>cols rec. cols \<union> set (map fst rec)) {} frame"

text \<open>The loop over the frames for one candidate, with its \<open>break\<close>.\<close>

fun frames_ok :: "row list list \<Rightarrow> string list \<Rightarrow> bool" where
  "frames_ok [] keys = True"
| "frames_ok (frame # frames) keys =
     (if \<not> (\<forall>k \<in> set keys. k \<in> frame_cols frame) then False else frames_ok frames keys)"

fun infer_key_columns :: "row list list \<Rightarrow> string list list \<Rightarrow> string list option" where
  "infer_key_columns frames [] = None"
| "infer_key_columns frames (keys # key_options) =
     (if frames_ok frames keys then Some keys else infer_key_columns frames key_options)"

section \<open>Merge engine (\<open>merge.py\<close>)\<close>

fun compose_key :: "row \<Rightarrow> string list \<Rightarrow> string list option" where
  "compose_key rec [] = Some []"
| "compose_key rec (k # keys) =
     (let v = py_get rec k in
      if v = PNone then None
      else let s = py_strip (py_str v) in
        if s = [] then None
        else (case compose_key rec keys of None \<Rightarrow> None | Some values \<Rightarrow> Some (s # values)))"

text \<open>\<open>for i, key_name in enumerate(keys): target.setdefault(key_name, k[i])\<close>.\<close>

fun set_key_fields :: "row \<Rightarrow> (string \<times> string) list \<Rightarrow> row" where
  "set_key_fields target [] = target"
| "set_key_fields target ((key_name, s) # rest) =
     set_key_fields (setdefault target key_name (PStr s)) rest"

text \<open>\<open>for col, val in rec.items(): ...\<close>, the field-level merge.\<close>

fun merge_fields :: "row \<Rightarrow> (string \<times> pyval) list \<Rightarrow> row" where
  "merge_fields target [] = target"
| "merge_fields target ((col, val) # items) =
     (if val = PNone \<or> py_strip (py_str val) = [] then merge_fields target items
      else if dict_get target col = None \<or> py_get target col = PNone
              \<or> py_strip (py_str (py_get target col)) = []
           then merge_fields (dict_set target col val) items
           else merge_fields target items)"

text \<open>The body of the inner loop of \<open>combine_records\<close>, for one source record.\<close>

definition merge_record :: "string list \<Rightarrow> (string list, row) dict \<Rightarrow> row \<Rightarrow> (string list, row) dict" where
  "merge_record keys combined_map rec =
     (case compose_key rec keys of
        None \<Rightarrow> combined_map
      | Some k \<Rightarrow>
          (let target = (case dict_get combined_map k of None \<Rightarrow> [] | Some t \<Rightarrow> t);
               target = set_key_fields target (zip keys k);
               target = merge_fields target rec
           in dict_set combined_map k target))"

definition combined_map_of :: "row list list \<Rightarrow> string list \<Rightarrow> (string list, row) dict" where
  "combined_map_of frames keys =
     foldl (\<lambda>combined_map frame. foldl (merge_record keys) combined_map frame) [] frames"

definition combine_records :: "row list list \<Rightarrow> string list \<Rightarrow> row list" where
  "combine_records frames keys = map snd (combined_map_of frames keys)"

section \<open>Derivation and aggregation (\<open>views.py\<close>)\<close>

definition key_options :: "string list list" where
  "key_options = [[''organisation_id''], [''customer'', ''name'']]"

definition display_fields :: "string list" where
  "display_fields = [''organisation_id'', ''customer'', ''name'', ''product_status'',
     ''engagement_status'', ''carbon_factor'', ''next_activity_due_date'']"

text \<open>\<open>for field in display_fields: rec.setdefault(field, None)\<close>.\<close>

definition complete_fields :: "row \<Rightarrow> row" where
  "complete_fields rec = foldl (\<lambda>r field. setdefault r field PNone) rec display_fields"

text \<open>
  \<open>nad = rec.get("next_activity_due_date");
  rec["has_next_activity_due"] = bool(nad not in (None, ""))\<close>.
\<close>

definition derive_due :: "row \<Rightarrow> row" where
  "derive_due rec =
     (let nad = py_get rec ''next_activity_due_date''
      in dict_set rec ''has_next_activity_due'' (PBool (nad \<noteq> PNone \<and> nad \<noteq> PStr [])))"

text \<open>
  The view \<open>combine\<close>, from the frames of the session store to the value it stores
  under \<open>"combined"\<close>; \<open>None\<close> when it redirects without combining.
\<close>

definition combine :: "row list list \<Rightarrow> row list option" where
  "combine frames =
     (if frames = [] then None
      else (case infer_key_columns frames key_options of
              None \<Rightarrow> None
            | Some keys \<Rightarrow>
                if keys = [] then None
                else Some (map derive_due (map complete_fields (combine_records frames keys)))))"

text \<open>\<open>_vc\<close>: the value-count breakdown of \<open>dashboard\<close>.\<close>

definition vc_key :: "row \<Rightarrow> string \<Rightarrow> string" where
  "vc_key r field = (let v = py_get r field in if truthy v then py_str v else ''Unknown'')"

fun vc_loop :: "(string, nat) dict \<Rightarrow> row list \<Rightarrow> string \<Rightarrow> (string, nat) dict" where
  "vc_loop counts [] field = counts"
| "vc_loop counts (r # records) field =
     (let key = vc_key r field
      in vc_loop (dict_set counts key ((case dict_get counts key of None \<Rightarrow> 0 | Some n \<Rightarrow> n) + 1))
           records field)"

definition vc :: "row list \<Rightarrow> string \<Rightarrow> (string, nat) dict" where
  "vc records field = vc_loop [] records field"

subsection \<open>Numeric statistics of \<open>dashboard\<close>\<close>

text \<open>
  A Python \<open>float\<close>. A finite value is kept as the exact rational it stands for:
  the rounding of binary64 arithmetic and its overflow to infinity are not modelled.
  The two infinities and not-a-number are values of their own, since \<open>float()\<close>
  accepts their spellings.
\<close>

datatype pyfloat = Finite rat | PosInf | NegInf | NaN

definition is_digit :: "char \<Rightarrow> bool" where
  "is_digit c = (c \<in> set ''0123456789'')"

definition digit_val :: "char \<Rightarrow> nat" where
  "digit_val c = (case map_of (zip ''0123456789'' [0, 1, 2, 3, 4, 5, 6, 7, 8, 9]) c of
     Some d \<Rightarrow> d | None \<Rightarrow> 0)"

text \<open>
  The grammar of the argument of \<open>float()\<close> (Python language reference):
  \<^verbatim>\<open>
  digitpart     ::= digit (["_"] digit)*
  number        ::= [digitpart] "." digitpart | digitpart ["."]
  exponent      ::= ("e" | "E") [sign] digitpart
  floatnumber   ::= number [exponent]
  absfloatvalue ::= floatnumber | infinity | nan
  floatvalue    ::= [sign] absfloatvalue
  \<close>
  with \<open>infinity\<close> one of \<open>inf\<close> and \<open>infinity\<close> and \<open>nan\<close> the word \<open>nan\<close>, in any
  case, and leading and trailing whitespace removed first.
\<close>

fun digitpart :: "string \<Rightarrow> bool" where
  "digitpart [] = False"
| "digitpart [c] = is_digit c"
| "digitpart (c # d # cs) =
     (is_digit c \<and> (if d = CHR ''_'' then digitpart cs else digitpart (d # cs)))"

text \<open>The value of a \<open>digitpart\<close>, and the number of its digits.\<close>

definition digits_value :: "string \<Rightarrow> nat" where
  "digits_value s = foldl (\<lambda>n c. if c = CHR ''_'' then n else 10 * n + digit_val c) 0 s"

definition digits_count :: "string \<Rightarrow> nat" where
  "digits_count s = length (filter (\<lambda>c. c \<noteq> CHR ''_'') s)"

text \<open>\<open>number\<close>: the mantissa, split at its first point.\<close>

definition parse_number :: "string \<Rightarrow> rat option" where
  "parse_number m =
     (let ip = takeWhile (\<lambda>c. c \<noteq> CHR ''.'') m;
          rest = dropWhile (\<lambda>c. c \<noteq> CHR ''.'') m
      in case rest of
           [] \<Rightarrow> if digitpart ip then Some (of_nat (digits_value ip)) else None
         | _ # fp \<Rightarrow>
             if (ip = [] \<and> digitpart fp) \<or> (digitpart ip \<and> (fp = [] \<or> digitpart fp))
             then Some (of_nat (digits_value ip) + of_nat (digits_value fp) / 10 ^ digits_count fp)
             else None)"

text \<open>\<open>[sign] digitpart\<close>: the exponent after the letter.\<close>

definition parse_exponent :: "string \<Rightarrow> int option" where
  "parse_exponent ex =
     (case ex of
        [] \<Rightarrow> None
      | c # cs \<Rightarrow>
          if c = CHR ''-'' then (if digitpart cs then Some (- int (digits_value cs)) else None)
          else if c = CHR ''+'' then (if digitpart cs then Some (int (digits_value cs)) else None)
          else if digitpart ex then Some (int (digits_value ex)) else None)"

definition scale10 :: "rat \<Rightarrow> int \<Rightarrow> rat" where
  "scale10 q e = (if 0 \<le> e then q * 10 ^ nat e else q / 10 ^ nat (- e))"

text \<open>\<open>floatnumber\<close>: split at the first \<open>e\<close> or \<open>E\<close>.\<close>

definition parse_floatnumber :: "string \<Rightarrow> rat option" where
  "parse_floatnumber body =
     (let m = takeWhile (\<lambda>c. c \<noteq> CHR ''e'' \<and> c \<noteq> CHR ''E'') body;
          rest = dropWhile (\<lambda>c. c \<noteq> CHR ''e'' \<and> c \<noteq> CHR ''E'') body
      in case rest of
           [] \<Rightarrow> parse_number m
         | _ # ex \<Rightarrow>
             (case parse_number m of
                None \<Rightarrow> None
              | Some q \<Rightarrow> (case parse_exponent ex of None \<Rightarrow> None | Some e \<Rightarrow> Some (scale10 q e))))"

definition parse_absfloat :: "bool \<Rightarrow> string \<Rightarrow> pyfloat option" where
  "parse_absfloat negative body =
     (if py_lower body = ''inf'' \<or> py_lower body = ''infinity''
      then Some (if negative then NegInf else PosInf)
      else if py_lower body = ''nan'' then Some NaN
      else (case parse_floatnumber body of
              None \<Rightarrow> None
            | Some q \<Rightarrow> Some (Finite (if negative then - q else q))))"

text \<open>\<open>float(s)\<close> for a \<open>str\<close>; \<open>None\<close> stands for the \<open>ValueError\<close>.\<close>

definition py_float :: "string \<Rightarrow> pyfloat option" where
  "py_float s =
     (case py_strip s of
        [] \<Rightarrow> None
      | c # cs \<Rightarrow>
          if c = CHR ''-'' then parse_absfloat True cs
          else if c = CHR ''+'' then parse_absfloat False cs
          else parse_absfloat False (c # cs))"

text \<open>\<open>_to_float\<close>; \<open>str(v).replace(",", "")\<close> removes every comma.\<close>

definition to_float :: "pyval \<Rightarrow> pyfloat option" where
  "to_float v =
     (if v = PNone \<or> py_strip (py_str v) = [] then None
      else py_float (filter (\<lambda>c. c \<noteq> CHR '','') (py_str v)))"

text \<open>Float addition, division by a positive count, and the comparison \<open><\<close>.\<close>

fun fadd :: "pyfloat \<Rightarrow> pyfloat \<Rightarrow> pyfloat" where
  "fadd (Finite a) (Finite b) = Finite (a + b)"
| "fadd NaN _ = NaN"
| "fadd _ NaN = NaN"
| "fadd PosInf NegInf = NaN"
| "fadd NegInf PosInf = NaN"
| "fadd PosInf _ = PosInf"
| "fadd _ PosInf = PosInf"
| "fadd NegInf _ = NegInf"
| "fadd _ NegInf = NegInf"

fun fdiv_count :: "pyfloat \<Rightarrow> nat \<Rightarrow> pyfloat" where
  "fdiv_count (Finite a) n = Finite (a / of_nat n)"
| "fdiv_count x n = x"

fun fless :: "pyfloat \<Rightarrow> pyfloat \<Rightarrow> bool" where
  "fless (Finite a) (Finite b) = (a < b)"
| "fless NaN _ = False"
| "fless _ NaN = False"
| "fless NegInf NegInf = False"
| "fless NegInf _ = True"
| "fless _ NegInf = False"
| "fless PosInf _ = False"
| "fless _ PosInf = True"

text \<open>\<open>sum(xs)\<close>, which starts from 0, and \<open>min(xs)\<close>, \<open>max(xs)\<close> of a non-empty list.\<close>

definition py_sum :: "pyfloat list \<Rightarrow> pyfloat" where
  "py_sum xs = foldl fadd (Finite 0) xs"

definition py_min :: "pyfloat \<Rightarrow> pyfloat list \<Rightarrow> pyfloat" where
  "py_min x xs = foldl (\<lambda>best item. if fless item best then item else best) x xs"

definition py_max :: "pyfloat \<Rightarrow> pyfloat list \<Rightarrow> pyfloat" where
  "py_max x xs = foldl (\<lambda>best item. if fless best item then item else best) x xs"

definition cf_values :: "row list \<Rightarrow> pyfloat list" where
  "cf_values combined = List.map_filter (\<lambda>r. to_float (py_get r ''carbon_factor'')) combined"

text \<open>The dictionary \<open>carbon_factor_stats\<close> with its keys \<open>avg\<close>, \<open>min\<close> and \<open>max\<close>.\<close>

datatype stats = Stats (avg: pyfloat) (minimum: pyfloat) (maximum: pyfloat)

definition carbon_factor_stats :: "row list \<Rightarrow> stats" where
  "carbon_factor_stats combined =
     (case cf_values combined of
        [] \<Rightarrow> Stats (Finite 0) (Finite 0) (Finite 0)
      | x # xs \<Rightarrow>
          Stats (fdiv_count (py_sum (x # xs)) (length (x # xs))) (py_min x xs) (py_max x xs))"

text \<open>
  The spec's words for the values that count, ``matches a decimal numeral'': an
  optional sign, digits, and an optional fraction.
\<close>

definition spec_decimal_numeral :: "string \<Rightarrow> bool" where
  "spec_decimal_numeral s =
     (let body = (case s of c # cs \<Rightarrow> if c = CHR ''-'' \<or> c = CHR ''+'' then cs else s | [] \<Rightarrow> s);
          ip = takeWhile (\<lambda>c. c \<noteq> CHR ''.'') body;
          rest = dropWhile (\<lambda>c. c \<noteq> CHR ''.'') body
      in ip \<noteq> [] \<and> list_all is_digit ip \<and>
         (case rest of [] \<Rightarrow> True | _ # fp \<Rightarrow> list_all is_digit fp))"

section \<open>Dictionaries and strings: basic facts\<close>

lemma dict_get_set: "dict_get (dict_set d k v) k' = (if k' = k then Some v else dict_get d k')"
  by (induction d) (auto simp: dict_get_def)

lemma set_dict_set: "set (dict_set d k v) \<subseteq> insert (k, v) (set d)"
  by (induction d) (auto split: if_splits)

lemma dict_get_in_set: "dict_get d k = Some v \<Longrightarrow> (k, v) \<in> set d"
  by (simp add: dict_get_def map_of_SomeD)

lemma dict_get_setdefault:
  "dict_get (setdefault d k v) k' =
     (if k' = k \<and> dict_get d k = None then Some v else dict_get d k')"
  by (auto simp: setdefault_def dict_get_set split: option.splits)

lemma set_setdefault: "set (setdefault d k v) \<subseteq> insert (k, v) (set d)"
  using set_dict_set[of d k v] by (auto simp: setdefault_def split: option.splits)

lemma py_strip_prefix: "\<exists>w. dropWhile py_isspace s = py_strip s @ w"
proof -
  let ?u = "dropWhile py_isspace s"
  have "rev ?u = takeWhile py_isspace (rev ?u) @ dropWhile py_isspace (rev ?u)" by simp
  then have "rev (rev ?u) = rev (takeWhile py_isspace (rev ?u) @ dropWhile py_isspace (rev ?u))"
    by simp
  then have "?u = py_strip s @ rev (takeWhile py_isspace (rev ?u))"
    unfolding py_strip_def rev_append rev_rev_ident .
  then show ?thesis by blast
qed

lemma py_strip_hd: "py_strip s \<noteq> [] \<Longrightarrow> \<not> py_isspace (hd (py_strip s))"
proof -
  assume ne: "py_strip s \<noteq> []"
  obtain w where w: "dropWhile py_isspace s = py_strip s @ w" using py_strip_prefix by blast
  then have "dropWhile py_isspace s \<noteq> []" using ne by auto
  then have "\<not> py_isspace (hd (dropWhile py_isspace s))" by (rule hd_dropWhile)
  then show ?thesis using w ne by simp
qed

lemma py_strip_last: "py_strip s \<noteq> [] \<Longrightarrow> \<not> py_isspace (last (py_strip s))"
proof -
  assume ne: "py_strip s \<noteq> []"
  let ?d = "dropWhile py_isspace (rev (dropWhile py_isspace s))"
  have "?d \<noteq> []" using ne by (simp add: py_strip_def)
  then have "\<not> py_isspace (hd ?d)" by (rule hd_dropWhile)
  moreover have "last (py_strip s) = hd ?d" using \<open>?d \<noteq> []\<close> by (simp add: py_strip_def last_rev)
  ultimately show ?thesis by simp
qed

lemma py_strip_fixed:
  assumes "s = [] \<or> (\<not> py_isspace (hd s) \<and> \<not> py_isspace (last s))"
  shows "py_strip s = s"
proof (cases "s = []")
  case True then show ?thesis by (simp add: py_strip_def)
next
  case False
  then have h: "\<not> py_isspace (hd s)" and l: "\<not> py_isspace (last s)" using assms by auto
  have 1: "dropWhile py_isspace s = s" using False h by (cases s) auto
  have "hd (rev s) = last s" using False by (simp add: hd_rev)
  then have 2: "dropWhile py_isspace (rev s) = rev s"
    using False l by (simp add: dropWhile_eq_self_iff)
  show ?thesis by (simp add: py_strip_def 1 2)
qed

lemma py_strip_idem: "py_strip (py_strip s) = py_strip s"
  by (rule py_strip_fixed) (use py_strip_hd py_strip_last in blast)

section \<open>The field-level merge\<close>

lemma py_get_Some: "dict_get r k = Some v \<Longrightarrow> py_get r k = v"
  by (simp add: py_get_def)

lemma is_blank_py_get_None: "dict_get r k = None \<Longrightarrow> is_blank (py_get r k)"
  by (simp add: py_get_def is_blank_def)

lemma merge_fields_rule:
  "dict_get (merge_fields target items) col \<noteq> dict_get target col \<Longrightarrow>
     is_blank (py_get target col) \<and>
     (\<exists>val. (col, val) \<in> set items \<and> \<not> is_blank val \<and>
        dict_get (merge_fields target items) col = Some val)"
proof (induction items arbitrary: target)
  case Nil
  then show ?case by simp
next
  case (Cons item items)
  obtain c val where item: "item = (c, val)" by (cases item)
  show ?case
  proof (cases "val = PNone \<or> py_strip (py_str val) = []")
    case True
    then have "merge_fields target (item # items) = merge_fields target items"
      by (simp add: item)
    with Cons show ?thesis by auto
  next
    case nb: False
    then have nbv: "\<not> is_blank val" by (simp add: is_blank_def)
    show ?thesis
    proof (cases "dict_get target c = None \<or> py_get target c = PNone
              \<or> py_strip (py_str (py_get target c)) = []")
      case False
      then have "merge_fields target (item # items) = merge_fields target items"
        using nb by (auto simp: item)
      with Cons show ?thesis by auto
    next
      case True
      let ?t = "dict_set target c val"
      have eq: "merge_fields target (item # items) = merge_fields ?t items"
        using nb True by (simp add: item)
      have tb: "is_blank (py_get target c)"
        using True by (auto simp: is_blank_def py_get_def)
      show ?thesis
      proof (cases "col = c")
        case True
        have "dict_get ?t c = Some val" by (simp add: dict_get_set)
        then have "\<not> is_blank (py_get ?t c)" using nbv by (simp add: py_get_def)
        then have "dict_get (merge_fields ?t items) c = dict_get ?t c"
          using Cons.IH[of ?t] True by blast
        then show ?thesis using True tb nbv eq by (simp add: dict_get_set item)
      next
        case False
        then have "dict_get ?t col = dict_get target col" by (simp add: dict_get_set)
        moreover have "py_get ?t col = py_get target col"
          using False by (simp add: py_get_def dict_get_set)
        ultimately show ?thesis using Cons.IH[of ?t] Cons.prems eq by auto
      qed
    qed
  qed
qed

lemma merge_fields_keep:
  "dict_get target col = Some v \<Longrightarrow> \<not> is_blank v \<Longrightarrow>
     dict_get (merge_fields target items) col = Some v"
  using merge_fields_rule[of target items col] by (auto simp: py_get_def)

lemma merge_fields_values:
  "(c, v) \<in> set (merge_fields target items) \<Longrightarrow> (c, v) \<in> set target \<or> ((c, v) \<in> set items \<and> \<not> is_blank v)"
proof (induction items arbitrary: target)
  case Nil
  then show ?case by simp
next
  case (Cons item items)
  obtain c' val where item: "item = (c', val)" by (cases item)
  show ?case
  proof (cases "merge_fields target (item # items) = merge_fields target items")
    case True
    with Cons show ?thesis by auto
  next
    case False
    then have eq: "merge_fields target (item # items) = merge_fields (dict_set target c' val) items"
      and nb: "\<not> is_blank val"
      by (auto simp: item is_blank_def split: if_splits)
    from Cons.IH[of "dict_set target c' val"] Cons.prems eq
    have "(c, v) \<in> set (dict_set target c' val) \<or> ((c, v) \<in> set items \<and> \<not> is_blank v)" by simp
    then show ?thesis using set_dict_set[of target c' val] nb item by auto
  qed
qed

lemma set_key_fields_get:
  "dict_get (set_key_fields target kvs) f =
     (case dict_get target f of Some v \<Rightarrow> Some v
      | None \<Rightarrow> map_option PStr (map_of kvs f))"
  by (induction kvs arbitrary: target) (auto simp: dict_get_setdefault split: option.splits)

lemma set_key_fields_values:
  "(c, v) \<in> set (set_key_fields target kvs) \<Longrightarrow> (c, v) \<in> set target \<or> (\<exists>s. (c, s) \<in> set kvs \<and> v = PStr s)"
proof (induction kvs arbitrary: target)
  case Nil then show ?case by simp
next
  case (Cons kv kvs)
  obtain f s where kv: "kv = (f, s)" by (cases kv)
  from Cons.IH[of "setdefault target f (PStr s)"] Cons.prems
  have "(c, v) \<in> set (setdefault target f (PStr s)) \<or> (\<exists>s. (c, s) \<in> set kvs \<and> v = PStr s)"
    by (simp add: kv)
  then show ?case using set_setdefault[of target f "PStr s"] kv by auto
qed

lemma compose_key_None:
  "compose_key rec keys = None \<longleftrightarrow> (\<exists>f \<in> set keys. is_blank (py_get rec f))"
  by (induction keys) (auto simp: Let_def is_blank_def split: option.splits)

lemma compose_key_Some:
  "compose_key rec keys = Some k \<longleftrightarrow>
     (\<forall>f \<in> set keys. \<not> is_blank (py_get rec f)) \<and>
     k = map (\<lambda>f. py_strip (py_str (py_get rec f))) keys"
proof (induction keys arbitrary: k)
  case Nil
  then show ?case by auto
next
  case (Cons f keys)
  show ?case
  proof (cases "compose_key rec keys")
    case None
    then show ?thesis using compose_key_None[of rec keys] by (auto simp: Let_def is_blank_def)
  next
    case (Some vs)
    then show ?thesis using Cons.IH[of vs] by (auto simp: Let_def is_blank_def)
  qed
qed

section \<open>Invariants of the merge loop\<close>

lemma merge_record_skip: "compose_key rec keys = None \<Longrightarrow> merge_record keys cm rec = cm"
  by (simp add: merge_record_def)

lemma merge_record_keep:
  assumes "dict_get cm k = Some t" "dict_get t col = Some v" "\<not> is_blank v"
  shows "\<exists>t'. dict_get (merge_record keys cm rec) k = Some t' \<and> dict_get t' col = Some v"
proof (cases "compose_key rec keys")
  case None
  then show ?thesis using assms by (simp add: merge_record_def)
next
  case (Some k')
  show ?thesis
  proof (cases "k' = k")
    case False
    then show ?thesis using assms Some by (simp add: merge_record_def dict_get_set)
  next
    case True
    have "dict_get (set_key_fields t (zip keys k)) col = Some v"
      using assms(2) by (simp add: set_key_fields_get)
    then have "dict_get (merge_fields (set_key_fields t (zip keys k)) rec) col = Some v"
      using assms(3) by (rule merge_fields_keep)
    then show ?thesis using assms(1) Some True by (simp add: merge_record_def dict_get_set)
  qed
qed

lemma merge_all_keep:
  "dict_get cm k = Some t \<Longrightarrow> dict_get t col = Some v \<Longrightarrow> \<not> is_blank v \<Longrightarrow>
     \<exists>t'. dict_get (foldl (merge_record keys) cm recs) k = Some t' \<and> dict_get t' col = Some v"
proof (induction recs arbitrary: cm t)
  case Nil
  then show ?case by simp
next
  case (Cons r recs)
  from merge_record_keep[OF Cons.prems, of keys r]
  obtain t' where "dict_get (merge_record keys cm r) k = Some t'" "dict_get t' col = Some v"
    by blast
  then show ?case using Cons.IH[of "merge_record keys cm r" t'] Cons.prems(3) by simp
qed

lemma merge_frames_keep:
  "dict_get cm k = Some t \<Longrightarrow> dict_get t col = Some v \<Longrightarrow> \<not> is_blank v \<Longrightarrow>
     \<exists>t'. dict_get (foldl (\<lambda>m frame. foldl (merge_record keys) m frame) cm frames) k = Some t'
        \<and> dict_get t' col = Some v"
proof (induction frames arbitrary: cm t)
  case Nil
  then show ?case by simp
next
  case (Cons fr frames)
  from merge_all_keep[OF Cons.prems, of keys fr]
  obtain t' where "dict_get (foldl (merge_record keys) cm fr) k = Some t'" "dict_get t' col = Some v"
    by blast
  then show ?case using Cons.IH[of "foldl (merge_record keys) cm fr" t'] Cons.prems(3) by simp
qed

lemma merge_record_invariant:
  assumes inv: "\<And>k t. (k, t) \<in> set cm \<Longrightarrow> P k t"
    and new: "\<And>k t. compose_key rec keys = Some k \<Longrightarrow>
        (dict_get cm k = None \<and> t = []) \<or> (k, t) \<in> set cm \<Longrightarrow>
        P k (merge_fields (set_key_fields t (zip keys k)) rec)"
    and kt: "(k, t) \<in> set (merge_record keys cm rec)"
  shows "P k t"
proof (cases "compose_key rec keys")
  case None
  then show ?thesis using inv kt by (simp add: merge_record_def)
next
  case (Some k')
  let ?old = "case dict_get cm k' of None \<Rightarrow> [] | Some t \<Rightarrow> t"
  let ?new = "merge_fields (set_key_fields ?old (zip keys k')) rec"
  have "(dict_get cm k' = None \<and> ?old = []) \<or> (k', ?old) \<in> set cm"
    by (auto dest: dict_get_in_set split: option.splits)
  then have P: "P k' ?new" using new[OF Some] by blast
  have "(k, t) \<in> set (dict_set cm k' ?new)" using kt Some by (simp add: merge_record_def)
  then have "(k, t) = (k', ?new) \<or> (k, t) \<in> set cm" using set_dict_set[of cm k' ?new] by auto
  then show ?thesis using P inv by auto
qed

lemma merge_all_invariant:
  assumes new: "\<And>rec k t. rec \<in> set recs \<Longrightarrow> compose_key rec keys = Some k \<Longrightarrow>
        t = [] \<or> P k t \<Longrightarrow> P k (merge_fields (set_key_fields t (zip keys k)) rec)"
  shows "(\<And>k t. (k, t) \<in> set cm \<Longrightarrow> P k t) \<Longrightarrow>
     (k, t) \<in> set (foldl (merge_record keys) cm recs) \<Longrightarrow> P k t"
  using new
proof (induction recs arbitrary: cm)
  case Nil
  then show ?case by simp
next
  case (Cons r recs)
  have step: "\<And>k t. (k, t) \<in> set (merge_record keys cm r) \<Longrightarrow> P k t"
  proof -
    fix k t assume kt: "(k, t) \<in> set (merge_record keys cm r)"
    show "P k t"
    proof (rule merge_record_invariant[where P = P, OF _ _ kt])
      show "\<And>k t. (k, t) \<in> set cm \<Longrightarrow> P k t" using Cons.prems(1) by blast
      show "\<And>k t. compose_key r keys = Some k \<Longrightarrow>
          (dict_get cm k = None \<and> t = []) \<or> (k, t) \<in> set cm \<Longrightarrow>
          P k (merge_fields (set_key_fields t (zip keys k)) r)"
        using Cons.prems(1) Cons.prems(3)[of r] by auto
    qed
  qed
  show ?case
    using Cons.IH[of "merge_record keys cm r"] step Cons.prems(2) Cons.prems(3) by simp
qed

lemma combined_map_invariant:
  assumes new: "\<And>rec k t. compose_key rec keys = Some k \<Longrightarrow>
        t = [] \<or> P k t \<Longrightarrow> P k (merge_fields (set_key_fields t (zip keys k)) rec)"
  shows "(\<And>k t. (k, t) \<in> set cm \<Longrightarrow> P k t) \<Longrightarrow>
     (k, t) \<in> set (foldl (\<lambda>m frame. foldl (merge_record keys) m frame) cm frames) \<Longrightarrow> P k t"
proof (induction frames arbitrary: cm)
  case Nil
  then show ?case by simp
next
  case (Cons fr frames)
  have "\<And>k t. (k, t) \<in> set (foldl (merge_record keys) cm fr) \<Longrightarrow> P k t"
    using merge_all_invariant[where P = P and recs = fr and keys = keys and cm = cm]
      new Cons.prems(1) by blast
  then show ?case using Cons.IH[of "foldl (merge_record keys) cm fr"] Cons.prems(2) by simp
qed

lemma key_value_nonblank:
  assumes "compose_key rec keys = Some k" "s \<in> set k"
  shows "s \<noteq> [] \<and> py_strip s = s"
proof -
  from assms obtain f where "f \<in> set keys" "s = py_strip (py_str (py_get rec f))"
    "\<not> is_blank (py_get rec f)"
    by (auto simp: compose_key_Some)
  then show ?thesis by (simp add: is_blank_def py_strip_idem)
qed

lemma new_target_nonblank:
  assumes ck: "compose_key rec keys = Some k"
    and old: "\<forall>cv \<in> set t. \<not> is_blank (snd cv)"
  shows "\<forall>cv \<in> set (merge_fields (set_key_fields t (zip keys k)) rec). \<not> is_blank (snd cv)"
proof
  fix cv assume cv: "cv \<in> set (merge_fields (set_key_fields t (zip keys k)) rec)"
  obtain c v where [simp]: "cv = (c, v)" by (cases cv)
  from cv merge_fields_values[of c v "set_key_fields t (zip keys k)" rec]
  consider "(c, v) \<in> set (set_key_fields t (zip keys k))" | "\<not> is_blank v" by auto
  then show "\<not> is_blank (snd cv)"
  proof cases
    case 1
    from set_key_fields_values[OF 1]
    consider "(c, v) \<in> set t" | s where "(c, s) \<in> set (zip keys k)" "v = PStr s" by blast
    then show ?thesis
    proof cases
      case 1
      then show ?thesis using old by auto
    next
      case 2
      then have "s \<in> set k" by (auto dest: set_zip_rightD)
      then show ?thesis using key_value_nonblank[OF ck] 2 by (simp add: is_blank_def)
    qed
  next
    case 2
    then show ?thesis by simp
  qed
qed

lemma combined_map_nonblank:
  "(k, t) \<in> set (foldl (\<lambda>m frame. foldl (merge_record keys) m frame) [] frames) \<Longrightarrow>
     \<forall>cv \<in> set t. \<not> is_blank (snd cv)"
proof (rule combined_map_invariant[where P = "\<lambda>k t. \<forall>cv \<in> set t. \<not> is_blank (snd cv)"
      and cm = "[]" and keys = keys and frames = frames])
  fix rec k and t :: row
  assume ck: "compose_key rec keys = Some k"
    and "t = [] \<or> (\<forall>cv \<in> set t. \<not> is_blank (snd cv))"
  then have "\<forall>cv \<in> set t. \<not> is_blank (snd cv)" by auto
  then show "\<forall>cv \<in> set (merge_fields (set_key_fields t (zip keys k)) rec). \<not> is_blank (snd cv)"
    by (rule new_target_nonblank[OF ck])
qed auto

lemma combine_records_nonblank:
  "r \<in> set (combine_records frames keys) \<Longrightarrow> (c, v) \<in> set r \<Longrightarrow> \<not> is_blank v"
  using combined_map_nonblank[of _ r keys frames]
  by (fastforce simp: combine_records_def combined_map_of_def)

lemma foldl_concat_frames:
  "foldl (\<lambda>m frame. foldl f m frame) cm frames = foldl f cm (concat frames)"
  by (induction frames arbitrary: cm) auto

lemma combined_map_of_concat:
  "combined_map_of frames keys = foldl (merge_record keys) [] (concat frames)"
  by (simp add: combined_map_of_def foldl_concat_frames)

lemma merge_all_filter:
  "foldl (merge_record keys) cm (filter (\<lambda>r. compose_key r keys \<noteq> None) recs) =
   foldl (merge_record keys) cm recs"
  by (induction recs arbitrary: cm) (auto simp: merge_record_skip)

lemma new_target_keys:
  assumes ck: "compose_key rec keys = Some k"
    and old: "t = [] \<or> (\<forall>i < length keys. dict_get t (keys ! i) = Some (PStr (k ! i)))"
    and i: "i < length keys"
  shows "dict_get (merge_fields (set_key_fields t (zip keys k)) rec) (keys ! i) = Some (PStr (k ! i))"
proof -
  let ?g = "\<lambda>f. py_strip (py_str (py_get rec f))"
  have k: "k = map ?g keys" using ck by (simp add: compose_key_Some)
  have ki: "k ! i = ?g (keys ! i)" using k i by simp
  have "k ! i \<in> set k" using k i by simp
  then have nb: "\<not> is_blank (PStr (k ! i))"
    using key_value_nonblank[OF ck] by (simp add: is_blank_def)
  have "map_of (zip keys k) (keys ! i) = Some (k ! i)"
    using i ki by (simp add: k map_of_zip_map)
  then have "dict_get (set_key_fields t (zip keys k)) (keys ! i) = Some (PStr (k ! i))"
  proof (cases "dict_get t (keys ! i)")
    case None
    assume "map_of (zip keys k) (keys ! i) = Some (k ! i)"
    then show ?thesis using None by (simp add: set_key_fields_get)
  next
    case (Some v)
    then have "t \<noteq> []" by (auto simp: dict_get_def)
    then have "v = PStr (k ! i)" using old i Some by auto
    then show ?thesis using Some by (simp add: set_key_fields_get)
  qed
  then show ?thesis using nb by (rule merge_fields_keep)
qed

lemma combined_map_keys:
  assumes "(k, t) \<in> set (foldl (\<lambda>m frame. foldl (merge_record keys) m frame) [] frames)"
  shows "length k = length keys \<and>
     (\<forall>i < length keys. dict_get t (keys ! i) = Some (PStr (k ! i)) \<and> k ! i \<noteq> [] \<and> py_strip (k ! i) = k ! i)"
proof (rule combined_map_invariant[where P = "\<lambda>k t. length k = length keys \<and>
     (\<forall>i < length keys. dict_get t (keys ! i) = Some (PStr (k ! i)) \<and> k ! i \<noteq> [] \<and> py_strip (k ! i) = k ! i)"
      and cm = "[]" and keys = keys and frames = frames, OF _ _ assms])
  fix rec k t
  assume ck: "compose_key rec keys = Some k"
    and old: "t = [] \<or> (length k = length keys \<and>
     (\<forall>i < length keys. dict_get t (keys ! i) = Some (PStr (k ! i)) \<and> k ! i \<noteq> [] \<and> py_strip (k ! i) = k ! i))"
  have len: "length k = length keys" using ck by (simp add: compose_key_Some)
  have "\<forall>i < length keys. k ! i \<noteq> [] \<and> py_strip (k ! i) = k ! i"
    using key_value_nonblank[OF ck] len by simp
  moreover have "\<forall>i < length keys.
      dict_get (merge_fields (set_key_fields t (zip keys k)) rec) (keys ! i) = Some (PStr (k ! i))"
    using new_target_keys[OF ck] old by blast
  ultimately show "length k = length keys \<and>
     (\<forall>i < length keys. dict_get (merge_fields (set_key_fields t (zip keys k)) rec) (keys ! i) = Some (PStr (k ! i))
        \<and> k ! i \<noteq> [] \<and> py_strip (k ! i) = k ! i)"
    using len by blast
qed auto

section \<open>Merge conflict policy\<close>

text \<open>
  Claim C1. In \<open>combine_records\<close> a source value replaces the value a merged record
  holds for a field only if that value is missing, \<open>None\<close> or blank after trimming, and
  the source value is itself neither \<open>None\<close> nor blank after trimming. Hence a field
  that holds a value at some point of the merge holds the same value at every later
  point, and no merged record ever holds a blank value.

  The first conjunct is the rule for one source record merged into a target. The
  second says that the nested loops process the records of all frames in one sequence;
  the third that whatever a merged record holds after a prefix \<open>recs\<close> of that
  sequence is non-blank and is still there after any continuation \<open>later\<close>; the fourth
  that the records returned hold no blank value.
\<close>

theorem combine_records_merge_policy:
  "(dict_get (merge_fields target rec) col \<noteq> dict_get target col \<longrightarrow>
      is_blank (py_get target col) \<and>
      (\<exists>val. (col, val) \<in> set rec \<and> \<not> is_blank val \<and>
         dict_get (merge_fields target rec) col = Some val))
   \<and> combined_map_of frames keys = foldl (merge_record keys) [] (concat frames)
   \<and> (dict_get (foldl (merge_record keys) [] recs) k = Some t \<and> dict_get t col = Some v \<longrightarrow>
        \<not> is_blank v \<and>
        (\<exists>t'. dict_get (foldl (merge_record keys) [] (recs @ later)) k = Some t' \<and>
           dict_get t' col = Some v))
   \<and> (\<forall>r \<in> set (combine_records frames keys). \<forall>cv \<in> set r. \<not> is_blank (snd cv))"
proof (intro conjI impI)
  assume "dict_get (merge_fields target rec) col \<noteq> dict_get target col"
  then show "is_blank (py_get target col)"
    and "\<exists>val. (col, val) \<in> set rec \<and> \<not> is_blank val \<and>
         dict_get (merge_fields target rec) col = Some val"
    using merge_fields_rule[of target rec col] by blast+
next
  show "combined_map_of frames keys = foldl (merge_record keys) [] (concat frames)"
    by (rule combined_map_of_concat)
next
  assume a: "dict_get (foldl (merge_record keys) [] recs) k = Some t \<and> dict_get t col = Some v"
  then have "(k, t) \<in> set (foldl (\<lambda>m frame. foldl (merge_record keys) m frame) [] [recs])"
    by (simp add: dict_get_in_set)
  then have "\<forall>cv \<in> set t. \<not> is_blank (snd cv)" by (rule combined_map_nonblank)
  moreover have "(col, v) \<in> set t" using a by (simp add: dict_get_in_set)
  ultimately show nb: "\<not> is_blank v" by auto
  show "\<exists>t'. dict_get (foldl (merge_record keys) [] (recs @ later)) k = Some t' \<and>
           dict_get t' col = Some v"
    using merge_all_keep[of "foldl (merge_record keys) [] recs" k t col v keys later] a nb
    by simp
next
  show "\<forall>r \<in> set (combine_records frames keys). \<forall>cv \<in> set r. \<not> is_blank (snd cv)"
    using combine_records_nonblank by fastforce
qed

text \<open>
  The spec's example: one record has \<open>product_status = "Active"\<close>, a record processed
  later under the same key has \<open>product_status = ""\<close>; the merged record keeps
  \<open>"Active"\<close>.
\<close>

theorem combine_records_merge_policy_witness:
  "dict_get (foldl (merge_record [''organisation_id'']) []
       [[(''organisation_id'', PStr ''1''), (''product_status'', PStr ''Active'')]]) [''1'']
     = Some [(''organisation_id'', PStr ''1''), (''product_status'', PStr ''Active'')]
   \<and> dict_get [(''organisation_id'', PStr ''1''), (''product_status'', PStr ''Active'')]
        ''product_status'' = Some (PStr ''Active'')
   \<and> \<not> is_blank (PStr ''Active'')
   \<and> (\<exists>t'. dict_get (foldl (merge_record [''organisation_id'']) []
          ([[(''organisation_id'', PStr ''1''), (''product_status'', PStr ''Active'')]] @
           [[(''organisation_id'', PStr '' 1 ''), (''product_status'', PStr [])]])) [''1'']
          = Some t' \<and> dict_get t' ''product_status'' = Some (PStr ''Active''))"
proof -
  have h: "dict_get (foldl (merge_record [''organisation_id'']) []
       [[(''organisation_id'', PStr ''1''), (''product_status'', PStr ''Active'')]]) [''1'']
     = Some [(''organisation_id'', PStr ''1''), (''product_status'', PStr ''Active'')]
   \<and> dict_get [(''organisation_id'', PStr ''1''), (''product_status'', PStr ''Active'')]
        ''product_status'' = Some (PStr ''Active'')"
    by code_simp
  show ?thesis
    using h combine_records_merge_policy[of "[]" "[]" "''product_status''" "[]"
        "[''organisation_id'']"
        "[[(''organisation_id'', PStr ''1''), (''product_status'', PStr ''Active'')]]"
        "[''1'']" "[(''organisation_id'', PStr ''1''), (''product_status'', PStr ''Active'')]"
        "PStr ''Active''"
        "[[(''organisation_id'', PStr '' 1 ''), (''product_status'', PStr [])]]"]
    by blast
qed

section \<open>Unkeyable rows and the key fields of a merged record\<close>

lemma combined_map_of_filter:
  "combined_map_of (map (filter (\<lambda>r. compose_key r keys \<noteq> None)) frames) keys =
   combined_map_of frames keys"
proof -
  have "foldl (\<lambda>m frame. foldl (merge_record keys) m frame) cm
          (map (filter (\<lambda>r. compose_key r keys \<noteq> None)) frames) =
        foldl (\<lambda>m frame. foldl (merge_record keys) m frame) cm frames" for cm
    by (induction frames arbitrary: cm) (simp_all add: merge_all_filter del: not_None_eq)
  then show ?thesis by (simp add: combined_map_of_def del: not_None_eq)
qed

lemma merge_all_Nil_frames:
  "\<forall>frame \<in> set frames. frame = [] \<Longrightarrow>
     foldl (\<lambda>m frame. foldl (merge_record keys) m frame) cm frames = cm"
  by (induction frames arbitrary: cm) auto

text \<open>
  Claim C5. A source record for which some field of the join key is absent, \<open>None\<close>
  or blank after \<open>str\<close> and \<open>strip\<close> has no composite key (first conjunct), leaves
  the map of merged records as it was (second conjunct), and so contributes nothing:
  removing all such records from the input does not change the result (third
  conjunct). \<open>combine_records\<close> has no failing branch: for every input it returns a
  list, which is empty when no record has a key and when there are no frames.
\<close>

theorem combine_records_skips_unkeyable:
  "(compose_key rec keys = None \<longleftrightarrow> (\<exists>f \<in> set keys. is_blank (py_get rec f)))
   \<and> (compose_key rec keys = None \<longrightarrow> merge_record keys combined_map rec = combined_map)
   \<and> combine_records (map (filter (\<lambda>r. compose_key r keys \<noteq> None)) frames) keys =
       combine_records frames keys
   \<and> ((\<forall>frame \<in> set frames. \<forall>r \<in> set frame. compose_key r keys = None) \<longrightarrow>
        combine_records frames keys = [])
   \<and> combine_records [] keys = []"
proof (intro conjI impI)
  show "compose_key rec keys = None \<longleftrightarrow> (\<exists>f \<in> set keys. is_blank (py_get rec f))"
    by (rule compose_key_None)
  show "merge_record keys combined_map rec = combined_map" if "compose_key rec keys = None"
    using that by (rule merge_record_skip)
  show eq: "combine_records (map (filter (\<lambda>r. compose_key r keys \<noteq> None)) frames) keys =
       combine_records frames keys"
    by (simp add: combine_records_def combined_map_of_filter del: not_None_eq)
  show "combine_records [] keys = []"
    by (simp add: combine_records_def combined_map_of_def)
  show "combine_records frames keys = []"
    if a: "\<forall>frame \<in> set frames. \<forall>r \<in> set frame. compose_key r keys = None"
  proof -
    have "\<forall>frame \<in> set (map (filter (\<lambda>r. compose_key r keys \<noteq> None)) frames). frame = []"
      using a by (auto simp: filter_empty_conv)
    then have "combined_map_of (map (filter (\<lambda>r. compose_key r keys \<noteq> None)) frames) keys = []"
      unfolding combined_map_of_def by (rule merge_all_Nil_frames)
    then show ?thesis using combined_map_of_filter[of keys frames] by (simp add: combine_records_def)
  qed
qed

theorem combine_records_skips_unkeyable_witness:
  "compose_key [(''name'', PStr ''Bob''), (''organisation_id'', PStr ''  '')] [''organisation_id''] = None
   \<and> (\<exists>f \<in> set [''organisation_id''].
         is_blank (py_get [(''name'', PStr ''Bob''), (''organisation_id'', PStr ''  '')] f))
   \<and> merge_record [''organisation_id''] [([''1''], [(''organisation_id'', PStr ''1'')])]
        [(''name'', PStr ''Bob''), (''organisation_id'', PStr ''  '')]
      = [([''1''], [(''organisation_id'', PStr ''1'')])]
   \<and> combine_records [[[(''name'', PStr ''Bob''), (''organisation_id'', PStr ''  '')], [(''name'', PStr ''Al'')]]]
        [''organisation_id''] = []"
proof -
  have h1: "compose_key [(''name'', PStr ''Bob''), (''organisation_id'', PStr ''  '')] [''organisation_id''] = None"
    by code_simp
  have h2: "\<forall>frame \<in> set [[[(''name'', PStr ''Bob''), (''organisation_id'', PStr ''  '')], [(''name'', PStr ''Al'')]]].
      \<forall>r \<in> set frame. compose_key r [''organisation_id''] = None"
    by (simp add: py_get_def dict_get_def py_strip_def py_isspace_def)
  show ?thesis
    using h1 h2 combine_records_skips_unkeyable[of
        "[(''name'', PStr ''Bob''), (''organisation_id'', PStr ''  '')]" "[''organisation_id'']"
        "[([''1''], [(''organisation_id'', PStr ''1'')])]"
        "[[[(''name'', PStr ''Bob''), (''organisation_id'', PStr ''  '')], [(''name'', PStr ''Al'')]]]"]
    by blast
qed

text \<open>
  Claim C9. Every record returned by \<open>combine_records\<close> holds, for every field of the
  join key, a value that is not \<open>None\<close> and whose trimmed \<open>str\<close> is non-empty. The
  value is the component of the composite key under which the record is stored, a
  trimmed non-empty string, and the record's own composite key is that key.
\<close>

theorem combine_records_key_fields:
  "r \<in> set (combine_records frames keys) \<Longrightarrow>
     \<exists>k. (k, r) \<in> set (combined_map_of frames keys) \<and> length k = length keys \<and>
       compose_key r keys = Some k \<and>
       (\<forall>i < length keys. dict_get r (keys ! i) = Some (PStr (k ! i)) \<and>
          k ! i \<noteq> [] \<and> py_strip (k ! i) = k ! i) \<and>
       (\<forall>f \<in> set keys. \<exists>v. dict_get r f = Some v \<and> v \<noteq> PNone \<and> py_strip (py_str v) \<noteq> [])"
proof -
  assume "r \<in> set (combine_records frames keys)"
  then obtain k where kr: "(k, r) \<in> set (combined_map_of frames keys)"
    by (auto simp: combine_records_def)
  then have inv: "length k = length keys \<and>
     (\<forall>i < length keys. dict_get r (keys ! i) = Some (PStr (k ! i)) \<and> k ! i \<noteq> [] \<and> py_strip (k ! i) = k ! i)"
    unfolding combined_map_of_def by (rule combined_map_keys)
  have fields: "\<forall>f \<in> set keys. \<exists>v. dict_get r f = Some v \<and> v \<noteq> PNone \<and> py_strip (py_str v) \<noteq> []"
  proof
    fix f assume "f \<in> set keys"
    then obtain i where "i < length keys" "keys ! i = f" by (auto simp: in_set_conv_nth)
    then have "dict_get r f = Some (PStr (k ! i))" "py_strip (k ! i) \<noteq> []"
      using inv by auto
    then show "\<exists>v. dict_get r f = Some v \<and> v \<noteq> PNone \<and> py_strip (py_str v) \<noteq> []"
      by simp
  qed
  have "compose_key r keys = Some k"
  proof -
    have "\<forall>f \<in> set keys. \<not> is_blank (py_get r f)"
      using fields by (auto simp: is_blank_def py_get_def)
    moreover have "k = map (\<lambda>f. py_strip (py_str (py_get r f))) keys"
    proof (rule nth_equalityI)
      show "length k = length (map (\<lambda>f. py_strip (py_str (py_get r f))) keys)"
        using inv by simp
      fix i assume "i < length k"
      then have i: "i < length keys" using inv by simp
      then have "py_get r (keys ! i) = PStr (k ! i)" "py_strip (k ! i) = k ! i"
        using inv by (simp_all add: py_get_def)
      then show "k ! i = map (\<lambda>f. py_strip (py_str (py_get r f))) keys ! i"
        using i by simp
    qed
    ultimately show ?thesis by (simp add: compose_key_Some)
  qed
  then show ?thesis using kr inv fields by blast
qed

theorem combine_records_key_fields_witness:
  "[(''organisation_id'', PStr ''1''), (''name'', PStr ''Bob'')]
      \<in> set (combine_records [[[(''organisation_id'', PStr '' 1 ''), (''name'', PStr ''Bob'')]]] [''organisation_id''])
   \<and> (\<exists>k. compose_key [(''organisation_id'', PStr ''1''), (''name'', PStr ''Bob'')] [''organisation_id''] = Some k \<and>
       (\<forall>i < length [''organisation_id''].
          dict_get [(''organisation_id'', PStr ''1''), (''name'', PStr ''Bob'')] ([''organisation_id''] ! i) = Some (PStr (k ! i))))"
proof -
  have h: "[(''organisation_id'', PStr ''1''), (''name'', PStr ''Bob'')]
      \<in> set (combine_records [[[(''organisation_id'', PStr '' 1 ''), (''name'', PStr ''Bob'')]]] [''organisation_id''])"
    by code_simp
  show ?thesis
    using h combine_records_key_fields[OF h] by blast
qed

section \<open>Key inference\<close>

lemma frame_cols_foldl:
  "foldl (\<lambda>cols rec. cols \<union> fst ` set rec) A frame = A \<union> (\<Union>rec \<in> set frame. fst ` set rec)"
  by (induction frame arbitrary: A) auto

lemma frame_cols_eq: "frame_cols frame = (\<Union>rec \<in> set frame. fst ` set rec)"
  by (simp add: frame_cols_def frame_cols_foldl)

lemma frames_ok_iff:
  "frames_ok frames keys \<longleftrightarrow> (\<forall>frame \<in> set frames. set keys \<subseteq> frame_cols frame)"
  by (induction frames) auto

lemma infer_key_columns_find:
  "infer_key_columns frames opts = List.find (frames_ok frames) opts"
  by (induction opts) auto

text \<open>
  Claim C4. \<open>infer_key_columns\<close> returns the first candidate, in the caller's order,
  all of whose fields occur in the union of the field names of the rows of every
  table; it returns \<open>None\<close> exactly when no candidate is contained in every table's
  union.
\<close>

theorem infer_key_columns_first_accepted:
  "infer_key_columns frames opts =
     List.find (\<lambda>keys. \<forall>frame \<in> set frames. set keys \<subseteq> (\<Union>rec \<in> set frame. fst ` set rec)) opts
   \<and> (infer_key_columns frames opts = None \<longleftrightarrow>
        (\<forall>keys \<in> set opts. \<not> (\<forall>frame \<in> set frames. set keys \<subseteq> (\<Union>rec \<in> set frame. fst ` set rec))))
   \<and> (infer_key_columns frames opts = Some keys \<longleftrightarrow>
        (\<exists>i < length opts. opts ! i = keys \<and>
           (\<forall>frame \<in> set frames. set keys \<subseteq> (\<Union>rec \<in> set frame. fst ` set rec)) \<and>
           (\<forall>j < i. \<not> (\<forall>frame \<in> set frames. set (opts ! j) \<subseteq> (\<Union>rec \<in> set frame. fst ` set rec)))))"
proof -
  let ?acc = "\<lambda>keys. \<forall>frame \<in> set frames. set keys \<subseteq> (\<Union>rec \<in> set frame. fst ` set rec)"
  have ok: "frames_ok frames = ?acc"
    by (rule ext) (simp add: frames_ok_iff frame_cols_eq)
  have eq: "infer_key_columns frames opts = List.find ?acc opts"
    by (simp add: infer_key_columns_find ok)
  have n: "List.find ?acc opts = None \<longleftrightarrow> (\<forall>keys \<in> set opts. \<not> ?acc keys)"
    by (auto simp: find_None_iff)
  have s: "List.find ?acc opts = Some keys \<longleftrightarrow>
      (\<exists>i < length opts. opts ! i = keys \<and> ?acc keys \<and> (\<forall>j < i. \<not> ?acc (opts ! j)))"
    unfolding find_Some_iff by (intro iffI; elim exE conjE; blast)
  show ?thesis unfolding eq using n s by blast
qed


theorem infer_key_columns_first_accepted_witness:
  "infer_key_columns
      [[[(''organisation_id'', PStr ''1''), (''customer'', PStr ''Acme''), (''name'', PStr ''Bob'')]],
       [[(''organisation_id'', PStr ''1'')], [(''customer'', PStr ''Acme''), (''name'', PStr ''Bob'')]]]
      key_options = Some [''organisation_id'']
   \<and> (\<exists>i < length key_options. key_options ! i = [''organisation_id''] \<and>
        (\<forall>frame \<in> set
           [[[(''organisation_id'', PStr ''1''), (''customer'', PStr ''Acme''), (''name'', PStr ''Bob'')]],
            [[(''organisation_id'', PStr ''1'')], [(''customer'', PStr ''Acme''), (''name'', PStr ''Bob'')]]].
           set [''organisation_id''] \<subseteq> (\<Union>rec \<in> set frame. fst ` set rec)))
   \<and> infer_key_columns [[[(''customer'', PStr ''Acme'')]], [[(''name'', PStr ''Bob'')]]] key_options = None
   \<and> \<not> (\<exists>keys \<in> set key_options.
        \<forall>frame \<in> set [[[(''customer'', PStr ''Acme'')]], [[(''name'', PStr ''Bob'')]]].
           set keys \<subseteq> (\<Union>rec \<in> set frame. fst ` set rec))"
proof -
  let ?f1 = "[[[(''organisation_id'', PStr ''1''), (''customer'', PStr ''Acme''), (''name'', PStr ''Bob'')]],
       [[(''organisation_id'', PStr ''1'')], [(''customer'', PStr ''Acme''), (''name'', PStr ''Bob'')]]]"
  let ?f2 = "[[[(''customer'', PStr ''Acme'')]], [[(''name'', PStr ''Bob'')]]]"
  have 1: "infer_key_columns ?f1 key_options = Some [''organisation_id'']"
    by (simp add: key_options_def frame_cols_def)
  have 2: "infer_key_columns ?f2 key_options = None"
    by (simp add: key_options_def frame_cols_def)
  note t1 = infer_key_columns_first_accepted[of ?f1 key_options "[''organisation_id'']",
      THEN conjunct2, THEN conjunct2, THEN iffD1, OF 1]
  note t2 = infer_key_columns_first_accepted[of ?f2 key_options "[]",
      THEN conjunct2, THEN conjunct1, THEN iffD1, OF 2]
  have a: "\<exists>i < length key_options. key_options ! i = [''organisation_id''] \<and>
        (\<forall>frame \<in> set ?f1. set [''organisation_id''] \<subseteq> (\<Union>rec \<in> set frame. fst ` set rec))"
    using t1 by (elim exE conjE) (intro exI conjI, assumption+)
  have b: "\<not> (\<exists>keys \<in> set key_options.
        \<forall>frame \<in> set ?f2. set keys \<subseteq> (\<Union>rec \<in> set frame. fst ` set rec))"
    using t2 by blast
  show ?thesis using 1 a 2 b by (intro conjI)
qed

section \<open>Record normalization\<close>

lemma normalize_items_get:
  assumes "\<And>k c. dict_get col_map k = Some c \<Longrightarrow> c = map_column k"
  shows "(\<forall>k c. dict_get (fst (normalize_items col_map out items)) k = Some c \<longrightarrow> c = map_column k)
     \<and> dict_get (snd (normalize_items col_map out items)) c =
       (case filter (\<lambda>kv. map_column (fst kv) = c) items of
          [] \<Rightarrow> dict_get out c
        | kv # kvs \<Rightarrow> Some (snd (last (kv # kvs))))"
  using assms
proof (induction items arbitrary: col_map out)
  case Nil
  then show ?case by simp
next
  case (Cons item items)
  obtain k v where item: "item = (k, v)" by (cases item)
  let ?cm = "case dict_get col_map k of None \<Rightarrow> dict_set col_map k (map_column k) | Some _ \<Rightarrow> col_map"
  let ?out = "dict_set out (map_column k) v"
  have step: "normalize_items col_map out (item # items) = normalize_items ?cm ?out items"
    using Cons.prems[of k] by (auto simp: item split: option.splits)
  have cm: "\<And>k' c'. dict_get ?cm k' = Some c' \<Longrightarrow> c' = map_column k'"
    using Cons.prems by (auto simp: dict_get_set split: option.splits if_splits)
  note IH = Cons.IH[of ?cm ?out, OF cm]
  show ?case unfolding step using IH
    by (cases "filter (\<lambda>kv. map_column (fst kv) = c) items") (auto simp: item dict_get_set)
qed

lemma normalize_loop_rows:
  assumes "\<And>k c. dict_get col_map k = Some c \<Longrightarrow> c = map_column k"
  shows "\<exists>rows. fst (normalize_loop col_map normalized records) = normalized @ rows \<and>
      length rows = length records \<and>
      (\<forall>i < length records. \<forall>c. dict_get (rows ! i) c =
         (case filter (\<lambda>kv. map_column (fst kv) = c) (records ! i) of
            [] \<Rightarrow> None
          | kv # kvs \<Rightarrow> Some (snd (last (kv # kvs)))))"
  using assms
proof (induction records arbitrary: col_map normalized)
  case Nil
  then show ?case by simp
next
  case (Cons r records)
  obtain cm' out where ni: "normalize_items col_map [] r = (cm', out)"
    by (cases "normalize_items col_map [] r")
  from normalize_items_get[of col_map "[]" r, OF Cons.prems] ni
  have cm': "\<And>k c. dict_get cm' k = Some c \<Longrightarrow> c = map_column k"
    and out: "\<And>c. dict_get out c =
       (case filter (\<lambda>kv. map_column (fst kv) = c) r of
          [] \<Rightarrow> None | kv # kvs \<Rightarrow> Some (snd (last (kv # kvs))))"
    by (auto simp: dict_get_def split: list.splits)
  from Cons.IH[of cm' "normalized @ [out]", OF cm']
  obtain rows where rows: "fst (normalize_loop cm' (normalized @ [out]) records) = (normalized @ [out]) @ rows"
      "length rows = length records"
      "\<forall>i < length records. \<forall>c. dict_get (rows ! i) c =
         (case filter (\<lambda>kv. map_column (fst kv) = c) (records ! i) of
            [] \<Rightarrow> None
          | kv # kvs \<Rightarrow> Some (snd (last (kv # kvs))))"
    by blast
  have "fst (normalize_loop col_map normalized (r # records)) = normalized @ (out # rows)"
    using rows(1) ni by simp
  moreover have "length (out # rows) = length (r # records)" using rows(2) by simp
  moreover have "\<forall>i < length (r # records). \<forall>c. dict_get ((out # rows) ! i) c =
         (case filter (\<lambda>kv. map_column (fst kv) = c) ((r # records) ! i) of
            [] \<Rightarrow> None
          | kv # kvs \<Rightarrow> Some (snd (last (kv # kvs))))"
  proof (intro allI impI)
    fix i c assume "i < length (r # records)"
    then show "dict_get ((out # rows) ! i) c =
         (case filter (\<lambda>kv. map_column (fst kv) = c) ((r # records) ! i) of
            [] \<Rightarrow> None
          | kv # kvs \<Rightarrow> Some (snd (last (kv # kvs))))"
      using out rows(3) by (cases i) auto
  qed
  ultimately show ?case by blast
qed

text \<open>
  Claim C10. \<open>normalize_records\<close> returns one normalized record per input row, and
  the value a normalized record holds under a canonical field name is the value of the
  last header of the row, in iteration order, that maps to that name, whatever that
  value is: when two headers of a row collide, the later one wins even with a \<open>None\<close>
  or blank value.
\<close>

theorem normalize_records_last_header_wins:
  "length (fst (normalize_records records)) = length records \<and>
   (\<forall>i < length records. \<forall>c. dict_get (fst (normalize_records records) ! i) c =
      (case filter (\<lambda>kv. map_column (fst kv) = c) (records ! i) of
         [] \<Rightarrow> None
       | kv # kvs \<Rightarrow> Some (snd (last (kv # kvs)))))"
proof -
  have "\<And>k c. dict_get ([] :: (string, string) dict) k = Some c \<Longrightarrow> c = map_column k"
    by (simp add: dict_get_def)
  from normalize_loop_rows[of "[]" "[]" records, OF this]
  show ?thesis by (auto simp: normalize_records_def)
qed

text \<open>
  A row with the headers \<open>Org ID\<close> and \<open>org_id\<close>, which both map to
  \<open>organisation_id\<close>: the blank value of the later header replaces \<open>"17"\<close>.
\<close>

theorem normalize_records_last_header_wins_witness:
  "fst (normalize_records [[(''Org ID'', PStr ''17''), (''Name'', PStr ''Bob''), (''org_id'', PStr [])]])
     = [[(''organisation_id'', PStr []), (''name'', PStr ''Bob'')]]
   \<and> dict_get (fst (normalize_records [[(''Org ID'', PStr ''17''), (''Name'', PStr ''Bob''), (''org_id'', PStr [])]]) ! 0)
        ''organisation_id'' = Some (PStr [])"
proof -
  have 1: "fst (normalize_records [[(''Org ID'', PStr ''17''), (''Name'', PStr ''Bob''), (''org_id'', PStr [])]])
     = [[(''organisation_id'', PStr []), (''name'', PStr ''Bob'')]]"
    by code_simp
  have 2: "filter (\<lambda>kv. map_column (fst kv) = ''organisation_id'')
      ([[(''Org ID'', PStr ''17''), (''Name'', PStr ''Bob''), (''org_id'', PStr [])]] ! 0)
     = [(''Org ID'', PStr ''17''), (''org_id'', PStr [])]"
    by code_simp
  have 3: "(0::nat) < length [[(''Org ID'', PStr ''17''), (''Name'', PStr ''Bob''), (''org_id'', PStr [])]]"
    by simp
  from normalize_records_last_header_wins[of
      "[[(''Org ID'', PStr ''17''), (''Name'', PStr ''Bob''), (''org_id'', PStr [])]]"]
  have "dict_get (fst (normalize_records [[(''Org ID'', PStr ''17''), (''Name'', PStr ''Bob''), (''org_id'', PStr [])]]) ! 0)
        ''organisation_id'' =
      (case filter (\<lambda>kv. map_column (fst kv) = ''organisation_id'')
          ([[(''Org ID'', PStr ''17''), (''Name'', PStr ''Bob''), (''org_id'', PStr [])]] ! 0) of
         [] \<Rightarrow> None
       | kv # kvs \<Rightarrow> Some (snd (last (kv # kvs))))"
    using 3 by blast
  then show ?thesis using 1 unfolding 2 by simp
qed

text \<open>
  Claim C2 says that a row whose values are all \<open>None\<close> or blank never appears in the
  normalized output. The spreadsheet branch of \<open>read_table\<close> skips such rows, the
  delimited-text branch and \<open>normalize_records\<close> do not: a text file with the header
  line \<open>Org ID,Name\<close> and the data line \<open>,\<close> is read as one row of two empty strings,
  and that row is in the normalized output. The same row in a workbook is dropped.
\<close>

theorem normalize_records_keeps_blank_row:
  "read_table ''contacts.csv'' [] [[(''Org ID'', PStr []), (''Name'', PStr [])]]
     = [[(''Org ID'', PStr []), (''Name'', PStr [])]]
   \<and> fst (normalize_records (read_table ''contacts.csv'' [] [[(''Org ID'', PStr []), (''Name'', PStr [])]]))
     = [[(''organisation_id'', PStr []), (''name'', PStr [])]]
   \<and> is_blank (PStr [])
   \<and> read_table ''contacts.xlsx'' [[PStr ''Org ID'', PStr ''Name''], [PStr [], PStr []]] [] = []"
  by code_simp

section \<open>The derived due flag\<close>

lemma py_get_setdefault_None: "py_get (setdefault r f PNone) c = py_get r c"
  by (auto simp: py_get_def dict_get_setdefault split: option.splits)

lemma py_get_complete_fields_aux:
  "py_get (foldl (\<lambda>r field. setdefault r field PNone) r fields) c = py_get r c"
  by (induction fields arbitrary: r) (simp_all add: py_get_setdefault_None)

lemma py_get_complete_fields: "py_get (complete_fields r) c = py_get r c"
  by (simp add: complete_fields_def py_get_complete_fields_aux)

lemma dict_get_complete_fields_aux:
  "dict_get (foldl (\<lambda>r field. setdefault r field PNone) r fields) c =
     (case dict_get r c of Some v \<Rightarrow> Some v | None \<Rightarrow> if c \<in> set fields then Some PNone else None)"
  by (induction fields arbitrary: r) (auto simp: dict_get_setdefault split: option.splits)

lemma dict_get_complete_fields:
  "dict_get (complete_fields r) c =
     (case dict_get r c of Some v \<Rightarrow> Some v
      | None \<Rightarrow> if c \<in> set display_fields then Some PNone else None)"
  by (simp add: complete_fields_def dict_get_complete_fields_aux)

lemma py_get_nonblank:
  assumes "\<And>c v. (c, v) \<in> set r \<Longrightarrow> \<not> is_blank v"
  shows "py_get r c = PNone \<or> \<not> is_blank (py_get r c)"
proof (cases "dict_get r c")
  case None
  then show ?thesis by (simp add: py_get_def)
next
  case (Some v)
  then have "(c, v) \<in> set r" by (rule dict_get_in_set)
  then show ?thesis using assms Some by (simp add: py_get_def)
qed

text \<open>
  Claim C3. For every merged record that the view \<open>combine\<close> stores,
  \<open>has_next_activity_due\<close> is true if and only if \<open>next_activity_due_date\<close> holds a
  value that is not \<open>None\<close> and not blank after trimming.

  The view tests \<open>nad not in (None, "")\<close>, without trimming. The merged records it
  tests come from \<open>combine_records\<close>, which never stores a blank value, and from the
  field completion, which adds \<open>None\<close>: the field is always present, and holds either
  \<open>None\<close> or a value that is non-blank after trimming (second and third conjunct), so
  the test agrees with the trimmed one on every merged record. A source value of
  whitespace only is not merged, and the flag of the merged record is false. The last
  two conjuncts are the spec's examples for the test itself.
\<close>

theorem combine_has_next_activity_due:
  assumes "combine frames = Some combined_records" and "r \<in> set combined_records"
  shows "dict_get r ''has_next_activity_due'' =
           Some (PBool (\<not> is_blank (py_get r ''next_activity_due_date'')))
     \<and> dict_get r ''next_activity_due_date'' \<noteq> None
     \<and> (py_get r ''next_activity_due_date'' = PNone \<or>
          \<not> is_blank (py_get r ''next_activity_due_date''))
     \<and> py_get (derive_due [(''next_activity_due_date'', PStr [])]) ''has_next_activity_due'' = PBool False
     \<and> py_get (derive_due [(''next_activity_due_date'', PStr ''2024-01-01'')]) ''has_next_activity_due'' = PBool True"
proof -
  from assms obtain keys r0 where r0: "r0 \<in> set (combine_records frames keys)"
    and r: "r = derive_due (complete_fields r0)"
    by (auto simp: combine_def split: if_splits option.splits)
  let ?nad = "''next_activity_due_date''"
  have nb: "py_get r0 ?nad = PNone \<or> \<not> is_blank (py_get r0 ?nad)"
    using combine_records_nonblank[OF r0] by (rule py_get_nonblank)
  have g1: "py_get (complete_fields r0) ?nad = py_get r0 ?nad"
    by (rule py_get_complete_fields)
  have g2: "py_get r ?nad = py_get r0 ?nad"
    by (simp add: r derive_due_def py_get_def dict_get_set Let_def py_get_complete_fields[unfolded py_get_def])
  have pres: "dict_get r ?nad \<noteq> None"
  proof -
    have "''next_activity_due_date'' \<in> set display_fields" by (simp add: display_fields_def)
    then have "dict_get (complete_fields r0) ?nad \<noteq> None"
      by (simp add: dict_get_complete_fields split: option.splits)
    then show ?thesis by (simp add: r derive_due_def Let_def dict_get_set)
  qed
  have flag: "dict_get r ''has_next_activity_due'' =
      Some (PBool (py_get r0 ?nad \<noteq> PNone \<and> py_get r0 ?nad \<noteq> PStr []))"
    by (simp add: r derive_due_def Let_def dict_get_set g1)
  have "(py_get r0 ?nad \<noteq> PNone \<and> py_get r0 ?nad \<noteq> PStr []) = (\<not> is_blank (py_get r0 ?nad))"
    using nb by (auto simp: is_blank_def py_strip_def)
  then have 1: "dict_get r ''has_next_activity_due'' = Some (PBool (\<not> is_blank (py_get r ?nad)))"
    using flag g2 by simp
  have 2: "py_get r ?nad = PNone \<or> \<not> is_blank (py_get r ?nad)" using nb g2 by simp
  have 3: "py_get (derive_due [(''next_activity_due_date'', PStr [])]) ''has_next_activity_due'' = PBool False"
    by (simp add: derive_due_def py_get_def dict_get_def)
  have 4: "py_get (derive_due [(''next_activity_due_date'', PStr ''2024-01-01'')]) ''has_next_activity_due'' = PBool True"
    by (simp add: derive_due_def py_get_def dict_get_def)
  show ?thesis using 1 pres 2 3 4 by (intro conjI)
qed

text \<open>
  Two source records: one with a date, one whose date is whitespace only. The second
  merged record has \<open>None\<close> for the date and a false flag.
\<close>

theorem combine_has_next_activity_due_witness:
  "combine [[[(''organisation_id'', PStr ''1''), (''next_activity_due_date'', PStr ''2024-01-01'')],
             [(''organisation_id'', PStr ''2''), (''next_activity_due_date'', PStr ''   '')]]]
     = Some [[(''organisation_id'', PStr ''1''), (''next_activity_due_date'', PStr ''2024-01-01''),
              (''customer'', PNone), (''name'', PNone), (''product_status'', PNone),
              (''engagement_status'', PNone), (''carbon_factor'', PNone),
              (''has_next_activity_due'', PBool True)],
             [(''organisation_id'', PStr ''2''), (''customer'', PNone), (''name'', PNone),
              (''product_status'', PNone), (''engagement_status'', PNone), (''carbon_factor'', PNone),
              (''next_activity_due_date'', PNone), (''has_next_activity_due'', PBool False)]]
   \<and> dict_get [(''organisation_id'', PStr ''2''), (''customer'', PNone), (''name'', PNone),
              (''product_status'', PNone), (''engagement_status'', PNone), (''carbon_factor'', PNone),
              (''next_activity_due_date'', PNone), (''has_next_activity_due'', PBool False)]
         ''has_next_activity_due''
       = Some (PBool (\<not> is_blank (py_get
            [(''organisation_id'', PStr ''2''), (''customer'', PNone), (''name'', PNone),
              (''product_status'', PNone), (''engagement_status'', PNone), (''carbon_factor'', PNone),
              (''next_activity_due_date'', PNone), (''has_next_activity_due'', PBool False)]
            ''next_activity_due_date'')))"
proof -
  let ?r1 = "[(''organisation_id'', PStr ''1''), (''next_activity_due_date'', PStr ''2024-01-01''),
              (''customer'', PNone), (''name'', PNone), (''product_status'', PNone),
              (''engagement_status'', PNone), (''carbon_factor'', PNone),
              (''has_next_activity_due'', PBool True)]"
  let ?r2 = "[(''organisation_id'', PStr ''2''), (''customer'', PNone), (''name'', PNone),
              (''product_status'', PNone), (''engagement_status'', PNone), (''carbon_factor'', PNone),
              (''next_activity_due_date'', PNone), (''has_next_activity_due'', PBool False)]"
  have h1: "combine [[[(''organisation_id'', PStr ''1''), (''next_activity_due_date'', PStr ''2024-01-01'')],
             [(''organisation_id'', PStr ''2''), (''next_activity_due_date'', PStr ''   '')]]]
     = Some [?r1, ?r2]"
    by code_simp
  have h2: "?r2 \<in> set [?r1, ?r2]" by simp
  from combine_has_next_activity_due[OF h1 h2, THEN conjunct1] h1
  show ?thesis by (intro conjI)
qed

section \<open>Header canonicalization\<close>

lemma length_sub_runs: "length (sub_runs P s) \<le> length s"
proof (induction P s rule: sub_runs.induct)
  case (1 P)
  then show ?case by simp
next
  case (2 P c cs)
  have "length (dropWhile P cs) \<le> length cs" by (rule length_dropWhile_le)
  with 2 show ?case by (auto simp: le_SucI)
qed

lemma set_sub_runs: "set (sub_runs P s) \<subseteq> {c \<in> set s. \<not> P c} \<union> {CHR '' ''}"
proof (induction P s rule: sub_runs.induct)
  case (1 P)
  then show ?case by simp
next
  case (2 P c cs)
  have "set (dropWhile P cs) \<subseteq> set cs" by (auto dest: set_dropWhileD)
  with 2 show ?case by auto
qed

lemma dropWhile_sub_runs:
  "s = [] \<or> \<not> P (hd s) \<Longrightarrow> dropWhile P (sub_runs P s) = sub_runs P s"
  by (cases s) auto

lemma sub_runs_idem:
  assumes sp: "P (CHR '' '')"
  shows "sub_runs P (sub_runs P s) = sub_runs P s"
proof (induction P s rule: sub_runs.induct)
  case (1 P)
  then show ?case by simp
next
  case (2 P c cs)
  show ?case
  proof (cases "P c")
    case True
    let ?d = "dropWhile P cs"
    have "?d = [] \<or> \<not> P (hd ?d)" using hd_dropWhile[of P cs] by blast
    then have "dropWhile P (sub_runs P ?d) = sub_runs P ?d" by (rule dropWhile_sub_runs)
    then show ?thesis using True 2 by simp
  next
    case False
    then show ?thesis using 2 by simp
  qed
qed


lemma sub_runs_cong:
  "(\<And>c. c \<in> set s \<Longrightarrow> P c = Q c) \<Longrightarrow> sub_runs P s = sub_runs Q s"
proof (induction P s rule: sub_runs.induct)
  case (1 P)
  then show ?case by simp
next
  case (2 P c cs)
  have dw: "dropWhile P cs = dropWhile Q cs"
    using "2.prems" by (intro dropWhile_cong) auto
  have "set (dropWhile P cs) \<subseteq> set cs" by (auto dest: set_dropWhileD)
  then have a: "\<And>x. x \<in> set (dropWhile P cs) \<Longrightarrow> P x = Q x" using "2.prems" by auto
  have b: "\<And>x. x \<in> set cs \<Longrightarrow> P x = Q x" using "2.prems" by auto
  have pc: "P c = Q c" using "2.prems" by simp
  show ?case
  proof (cases "P c")
    case True
    then show ?thesis using "2.IH"(1)[OF True a] pc dw by simp
  next
    case False
    then show ?thesis using "2.IH"(2)[OF False b] pc by simp
  qed
qed

lemma sub_runs_fixed_Cons:
  assumes "sub_runs P (c # cs) = c # cs"
  shows "sub_runs P cs = cs \<and> (P c \<longrightarrow> c = CHR '' '' \<and> (cs = [] \<or> \<not> P (hd cs)))"
proof (cases "P c")
  case False
  then show ?thesis using assms by simp
next
  case True
  then have eq: "sub_runs P (dropWhile P cs) = cs" and c: "c = CHR '' ''" using assms by auto
  have "length cs \<le> length (dropWhile P cs)"
    using length_sub_runs[of P "dropWhile P cs"] eq by simp
  moreover have "length (takeWhile P cs) + length (dropWhile P cs) = length cs"
    by (metis length_append takeWhile_dropWhile_id)
  ultimately have "length (takeWhile P cs) = 0" by linarith
  then have "takeWhile P cs = []" by simp
  then have dw: "dropWhile P cs = cs" by (metis append_Nil takeWhile_dropWhile_id)
  then have "cs = [] \<or> \<not> P (hd cs)" using hd_dropWhile[of P cs] by auto
  then show ?thesis using eq dw c by simp
qed

lemma sub_runs_fixed_suffix:
  "sub_runs P (a @ b) = a @ b \<Longrightarrow> sub_runs P b = b"
proof (induction a)
  case Nil
  then show ?case by simp
next
  case (Cons c a)
  then have "sub_runs P (a @ b) = a @ b" using sub_runs_fixed_Cons[of P c "a @ b"] by simp
  then show ?case by (rule Cons.IH)
qed

lemma sub_runs_fixed_prefix:
  "sub_runs P (a @ b) = a @ b \<Longrightarrow> sub_runs P a = a"
proof (induction a)
  case Nil
  then show ?case by simp
next
  case (Cons c a)
  from sub_runs_fixed_Cons[of P c "a @ b"] Cons.prems
  have fx: "sub_runs P (a @ b) = a @ b"
    and pc: "P c \<longrightarrow> c = CHR '' '' \<and> (a @ b = [] \<or> \<not> P (hd (a @ b)))"
    by simp_all
  have IH: "sub_runs P a = a" using fx by (rule Cons.IH)
  show ?case
  proof (cases "P c")
    case False
    then show ?thesis using IH by simp
  next
    case True
    then have "a = [] \<or> \<not> P (hd a)" using pc by (cases a) auto
    then have "dropWhile P a = a" by (cases a) auto
    then show ?thesis using True pc IH by simp
  qed
qed

lemma py_strip_infix: "\<exists>a b. s = a @ py_strip s @ b"
proof -
  obtain w where w: "dropWhile py_isspace s = py_strip s @ w" using py_strip_prefix by blast
  have "s = takeWhile py_isspace s @ dropWhile py_isspace s" by simp
  then have "s = takeWhile py_isspace s @ py_strip s @ w" using w by simp
  then show ?thesis by blast
qed

lemma sub_runs_fixed_strip:
  assumes "sub_runs P s = s"
  shows "sub_runs P (py_strip s) = py_strip s"
proof -
  obtain a b where s: "s = a @ py_strip s @ b" using py_strip_infix by blast
  then have "sub_runs P (a @ (py_strip s @ b)) = a @ (py_strip s @ b)" using assms by simp
  then have "sub_runs P (py_strip s @ b) = py_strip s @ b" by (rule sub_runs_fixed_suffix)
  then show ?thesis by (rule sub_runs_fixed_prefix)
qed

lemma set_py_strip: "set (py_strip s) \<subseteq> set s"
proof -
  obtain a b where "s = a @ py_strip s @ b" using py_strip_infix by blast
  then have "set s = set a \<union> set (py_strip s) \<union> set b" by (metis set_append sup_assoc)
  then show ?thesis by blast
qed

lemma alnum_or_space:
  "is_alnum c \<or> c = CHR '' '' \<longleftrightarrow> c \<in> set (CHR '' '' # ''abcdefghijklmnopqrstuvwxyz0123456789'')"
proof -
  have "set (CHR '' '' # ''abcdefghijklmnopqrstuvwxyz0123456789'') =
      insert (CHR '' '') (set ''abcdefghijklmnopqrstuvwxyz0123456789'')"
    by (rule list.set(2))
  then show ?thesis unfolding is_alnum_def by blast
qed

lemma py_lower_char_table:
  "\<forall>c \<in> set (CHR '' '' # ''abcdefghijklmnopqrstuvwxyz0123456789''). py_lower_char c = c"
  by code_simp

lemma py_isspace_table:
  "\<forall>c \<in> set (CHR '' '' # ''abcdefghijklmnopqrstuvwxyz0123456789''). py_isspace c = (\<not> is_alnum c)"
  by code_simp

lemma py_lower_char_alnum: "is_alnum c \<or> c = CHR '' '' \<Longrightarrow> py_lower_char c = c"
  unfolding alnum_or_space using py_lower_char_table by (rule bspec)

lemma py_isspace_alnum: "is_alnum c \<or> c = CHR '' '' \<Longrightarrow> py_isspace c = (\<not> is_alnum c)"
  unfolding alnum_or_space using py_isspace_table by (rule bspec)


lemma canonical_form_fixed:
  assumes fx: "sub_runs (\<lambda>c. \<not> is_alnum c) w = w"
    and chars: "\<And>c. c \<in> set w \<Longrightarrow> is_alnum c \<or> c = CHR '' ''"
    and st: "py_strip w = w"
  shows "canonicalize w = w"
proof -
  have lo: "py_lower w = w"
    unfolding py_lower_def using chars by (intro map_idI py_lower_char_alnum)
  have "sub_runs py_isspace w = sub_runs (\<lambda>c. \<not> is_alnum c) w"
    using chars by (intro sub_runs_cong py_isspace_alnum)
  then have ws: "sub_runs py_isspace w = w" using fx by simp
  show ?thesis by (simp add: canonicalize_def Let_def st lo fx ws)
qed

lemma canonicalize_form:
  "sub_runs (\<lambda>c. \<not> is_alnum c) (canonicalize x) = canonicalize x
   \<and> (\<forall>c \<in> set (canonicalize x). is_alnum c \<or> c = CHR '' '')
   \<and> py_strip (canonicalize x) = canonicalize x"
proof -
  let ?t = "sub_runs (\<lambda>c. \<not> is_alnum c) (py_lower (py_strip x))"
  have sp: "\<not> is_alnum (CHR '' '')" by (simp add: is_alnum_def)
  have fx: "sub_runs (\<lambda>c. \<not> is_alnum c) ?t = ?t" using sp by (intro sub_runs_idem)
  have chars: "\<And>c. c \<in> set ?t \<Longrightarrow> is_alnum c \<or> c = CHR '' ''"
    using set_sub_runs[of "\<lambda>c. \<not> is_alnum c" "py_lower (py_strip x)"] by auto
  have "sub_runs py_isspace ?t = sub_runs (\<lambda>c. \<not> is_alnum c) ?t"
    using chars by (intro sub_runs_cong py_isspace_alnum)
  then have ws: "sub_runs py_isspace ?t = ?t" using fx by simp
  have can: "canonicalize x = py_strip ?t" by (simp add: canonicalize_def Let_def ws)
  have 1: "sub_runs (\<lambda>c. \<not> is_alnum c) (py_strip ?t) = py_strip ?t"
    using fx by (rule sub_runs_fixed_strip)
  have 2: "\<forall>c \<in> set (py_strip ?t). is_alnum c \<or> c = CHR '' ''"
    using chars set_py_strip[of ?t] by blast
  have 3: "py_strip (py_strip ?t) = py_strip ?t" by (rule py_strip_idem)
  show ?thesis unfolding can using 1 2 3 by (intro conjI)
qed

lemma canonicalize_idem: "canonicalize (canonicalize x) = canonicalize x"
  using canonicalize_form[of x] by (intro canonical_form_fixed) auto

lemma map_column_loop_cases:
  "map_column_loop n table = n \<or> map_column_loop n table \<in> set (map fst table)"
  by (induction table) (force split: if_splits)+

lemma map_column_canonical_names:
  "\<forall>c \<in> set (map fst NORMALIZED_COLUMN_ALIASES). map_column c = c"
  by code_simp

text \<open>
  Claim C8. Header canonicalization (\<open>_map_column\<close>) is idempotent: applied to its own
  output it returns that output, both when the header resolves through the alias table
  to a canonical field name and when its normalized text passes through. The
  normalization step \<open>_canonicalize\<close> is idempotent as well.
\<close>

theorem map_column_idempotent:
  "map_column (map_column x) = map_column x \<and> canonicalize (canonicalize x) = canonicalize x"
proof
  show "canonicalize (canonicalize x) = canonicalize x" by (rule canonicalize_idem)
  let ?n = "canonicalize x"
  let ?r = "map_column_loop ?n NORMALIZED_COLUMN_ALIASES"
  have r: "map_column x = ?r" by (simp add: map_column_def)
  from map_column_loop_cases[of ?n NORMALIZED_COLUMN_ALIASES]
  show "map_column (map_column x) = map_column x"
  proof
    assume pass: "?r = ?n"
    have "map_column ?n = map_column_loop (canonicalize ?n) NORMALIZED_COLUMN_ALIASES"
      by (simp add: map_column_def)
    also have "\<dots> = ?r" by (simp add: canonicalize_idem)
    finally show ?thesis using pass r by simp
  next
    assume "?r \<in> set (map fst NORMALIZED_COLUMN_ALIASES)"
    then have "map_column ?r = ?r" using map_column_canonical_names by (rule_tac bspec)
    then show ?thesis using r by simp
  qed
qed

text \<open>One header that resolves through the alias table and one that passes through.\<close>

theorem map_column_idempotent_witness:
  "map_column ''Org ID'' = ''organisation_id''
   \<and> map_column (map_column ''Org ID'') = map_column ''Org ID''
   \<and> map_column ''  Site / Region  '' = ''site region''
   \<and> map_column (map_column ''  Site / Region  '') = map_column ''  Site / Region  ''"
proof -
  have 1: "map_column ''Org ID'' = ''organisation_id''" by code_simp
  have 2: "map_column ''  Site / Region  '' = ''site region''" by code_simp
  show ?thesis
    using 1 2 map_column_idempotent[of "''Org ID''", THEN conjunct1]
      map_column_idempotent[of "''  Site / Region  ''", THEN conjunct1]
    by (intro conjI)
qed

section \<open>Value-count breakdown\<close>

lemma map_fst_dict_set:
  "map fst (dict_set d k v) = (if k \<in> set (map fst d) then map fst d else map fst d @ [k])"
  by (induction d) (force split: if_splits)+

lemma remdups_append_seen:
  "k \<in> set b \<Longrightarrow> remdups (a @ k # b) = remdups (a @ b)"
  by (induction a) auto

lemma first_seen_step:
  "rev (remdups (rev ((if k \<in> set ks then ks else ks @ [k]) @ rest))) =
   rev (remdups (rev (ks @ k # rest)))"
proof (cases "k \<in> set ks")
  case True
  then have "remdups (rev rest @ k # rev ks) = remdups (rev rest @ rev ks)"
    by (intro remdups_append_seen) simp
  then show ?thesis using True by simp
next
  case False
  then show ?thesis by simp
qed

lemma first_seen_distinct: "distinct ks \<Longrightarrow> rev (remdups (rev ks)) = ks"
  by (simp add: distinct_remdups_id)

lemma vc_loop_keys:
  "map fst (vc_loop counts records field) =
     rev (remdups (rev (map fst counts @ map (\<lambda>r. vc_key r field) records)))
   \<or> \<not> distinct (map fst counts)"
proof (induction records arbitrary: counts)
  case Nil
  show ?case
  proof (cases "distinct (map fst counts)")
    case True
    then show ?thesis using first_seen_distinct[of "map fst counts"] by simp
  next
    case False
    then show ?thesis by simp
  qed
next
  case (Cons r records)
  let ?key = "vc_key r field"
  let ?n = "(case dict_get counts ?key of None \<Rightarrow> 0 | Some n \<Rightarrow> n) + 1"
  let ?c = "dict_set counts ?key ?n"
  show ?case
  proof (cases "distinct (map fst counts)")
    case False
    then show ?thesis by simp
  next
    case True
    then have "distinct (map fst ?c)" by (simp add: map_fst_dict_set)
    then have "map fst (vc_loop ?c records field) =
        rev (remdups (rev (map fst ?c @ map (\<lambda>r. vc_key r field) records)))"
      using Cons.IH[of ?c] by blast
    also have "\<dots> = rev (remdups (rev (map fst counts @ ?key # map (\<lambda>r. vc_key r field) records)))"
      unfolding map_fst_dict_set by (rule first_seen_step)
    finally show ?thesis by (simp add: Let_def)
  qed
qed

lemma vc_loop_get:
  "dict_get (vc_loop counts records field) k =
     (case dict_get counts k of
        None \<Rightarrow> if k \<in> set (map (\<lambda>r. vc_key r field) records)
                then Some (count_list (map (\<lambda>r. vc_key r field) records) k) else None
      | Some m \<Rightarrow> Some (m + count_list (map (\<lambda>r. vc_key r field) records) k))"
proof (induction records arbitrary: counts)
  case Nil
  then show ?case by (simp split: option.splits)
next
  case (Cons r records)
  show ?case
    by (simp add: Let_def Cons.IH dict_get_set split: option.splits)
qed

lemma falsy_iff:
  "\<not> truthy v \<longleftrightarrow> v = PNone \<or> v = PStr [] \<or> v = PInt 0 \<or> v = PBool False \<or> (\<exists>s. v = POther s False)"
  by (cases v) auto

text \<open>
  Claim C7, as amended. The breakdown lists the buckets in the order in which they
  are first seen and maps each bucket to the number of records that fall into it. The
  bucket of a record is \<open>str\<close> of its field value when the value is truthy and the
  literal \<open>Unknown\<close> when it is falsy, that is \<open>None\<close>, the empty string, a numeric
  zero or \<open>False\<close>. A string of whitespace only is truthy and is its own bucket.
\<close>

theorem vc_breakdown:
  "map fst (vc records field) = rev (remdups (rev (map (\<lambda>r. vc_key r field) records)))
   \<and> dict_get (vc records field) key =
       (if key \<in> set (map (\<lambda>r. vc_key r field) records)
        then Some (count_list (map (\<lambda>r. vc_key r field) records) key) else None)
   \<and> vc_key r field = (if truthy (py_get r field) then py_str (py_get r field) else ''Unknown'')
   \<and> (\<not> truthy (py_get r field) \<longleftrightarrow>
        py_get r field = PNone \<or> py_get r field = PStr [] \<or> py_get r field = PInt 0 \<or>
        py_get r field = PBool False \<or> (\<exists>s. py_get r field = POther s False))
   \<and> (vc_key r field = ''Unknown'' \<longleftrightarrow>
        \<not> truthy (py_get r field) \<or> py_str (py_get r field) = ''Unknown'')"
proof (intro conjI)
  show "map fst (vc records field) = rev (remdups (rev (map (\<lambda>r. vc_key r field) records)))"
    using vc_loop_keys[of "[]" records field] by (simp add: vc_def)
  show "dict_get (vc records field) key =
       (if key \<in> set (map (\<lambda>r. vc_key r field) records)
        then Some (count_list (map (\<lambda>r. vc_key r field) records) key) else None)"
    using vc_loop_get[of "[]" records field key] by (simp add: vc_def dict_get_def)
  show "vc_key r field = (if truthy (py_get r field) then py_str (py_get r field) else ''Unknown'')"
    by (simp add: vc_key_def Let_def)
  show "\<not> truthy (py_get r field) \<longleftrightarrow>
        py_get r field = PNone \<or> py_get r field = PStr [] \<or> py_get r field = PInt 0 \<or>
        py_get r field = PBool False \<or> (\<exists>s. py_get r field = POther s False)"
    by (rule falsy_iff)
  show "vc_key r field = ''Unknown'' \<longleftrightarrow>
        \<not> truthy (py_get r field) \<or> py_str (py_get r field) = ''Unknown''"
    by (simp add: vc_key_def Let_def)
qed

text \<open>Six records: \<open>None\<close>, the empty string and the number 0 share the bucket \<open>Unknown\<close>.\<close>

theorem vc_breakdown_witness:
  "vc [[(''engagement_status'', PStr ''Live'')], [(''engagement_status'', PNone)],
       [(''engagement_status'', PStr ''   '')], [(''engagement_status'', PStr ''Live'')],
       [(''engagement_status'', PStr [])], [(''engagement_status'', PInt 0)]] ''engagement_status''
     = [(''Live'', 2), (''Unknown'', 3), (''   '', 1)]
   \<and> dict_get (vc [[(''engagement_status'', PStr ''Live'')], [(''engagement_status'', PNone)],
       [(''engagement_status'', PStr ''   '')], [(''engagement_status'', PStr ''Live'')],
       [(''engagement_status'', PStr [])], [(''engagement_status'', PInt 0)]] ''engagement_status'') ''Unknown''
     = Some 3"
proof -
  let ?rs = "[[(''engagement_status'', PStr ''Live'')], [(''engagement_status'', PNone)],
       [(''engagement_status'', PStr ''   '')], [(''engagement_status'', PStr ''Live'')],
       [(''engagement_status'', PStr [])], [(''engagement_status'', PInt 0)]]"
  have 1: "vc ?rs ''engagement_status'' = [(''Live'', 2), (''Unknown'', 3), (''   '', 1)]"
    by code_simp
  have 2: "(if ''Unknown'' \<in> set (map (\<lambda>r. vc_key r ''engagement_status'') ?rs)
        then Some (count_list (map (\<lambda>r. vc_key r ''engagement_status'') ?rs) ''Unknown'') else None)
      = Some 3"
    by code_simp
  from vc_breakdown[of ?rs "''engagement_status''" "''Unknown''" "[]", THEN conjunct2, THEN conjunct1]
  have "dict_get (vc ?rs ''engagement_status'') ''Unknown'' = Some 3"
    unfolding 2 .
  with 1 show ?thesis by (intro conjI)
qed

text \<open>
  Claim C7 as stated has \<open>Unknown\<close> as the bucket exactly when the value is \<open>None\<close> or
  blank. A record whose field holds the number 0 is counted under \<open>Unknown\<close>,
  although the value is not \<open>None\<close> and its \<open>str\<close>, \<open>"0"\<close>, is not blank.
\<close>

theorem vc_unknown_counterexample:
  "vc [[(''engagement_status'', PInt 0)]] ''engagement_status'' = [(''Unknown'', 1)]
   \<and> py_get [(''engagement_status'', PInt 0)] ''engagement_status'' \<noteq> PNone
   \<and> py_str (py_get [(''engagement_status'', PInt 0)] ''engagement_status'') = ''0''
   \<and> \<not> is_blank (py_get [(''engagement_status'', PInt 0)] ''engagement_status'')
   \<and> \<not> (vc_key [(''engagement_status'', PInt 0)] ''engagement_status'' = ''Unknown'' \<longleftrightarrow>
          is_blank (py_get [(''engagement_status'', PInt 0)] ''engagement_status''))"
  by code_simp

end
